theory Spec2Isabelle
  imports Complex_Main "HOL-Library.Word" "HOL-Library.Product_Lexorder"
    "HOL-Library.Sublist" "HOL-Library.Multiset" "HOL-Library.Monad_Syntax" "HOL-Library.AList"
begin

section \<open>Image segmentation (image\_segmentation/helper.py)\<close>

text \<open>
  A grayscale image (\<open>np.array(Image.open(p).convert("L"))\<close>) is a list of rows of
  unsigned 8-bit pixels, all of the same positive width. NumPy arithmetic on \<open>uint8\<close>
  arrays wraps modulo 256, which is what \<open>8 word\<close> does. Means, variances and confidences
  are \<open>float64\<close> in the source; they are modelled by exact rationals. Row positions are
  Python integers, and the window size is a natural number.
\<close>

type_synonym gray_row = "8 word list"
type_synonym gray = "gray_row list"
type_synonym candidate = "int \<times> rat"

subsection \<open>separation\_line\_detection: candidates (lines 41-87)\<close>

definition np_mean :: "nat list \<Rightarrow> rat" where
  "np_mean xs = of_nat (sum_list xs) / of_nat (length xs)"

definition np_var :: "gray \<Rightarrow> rat" where
  "np_var window =
     (let xs = map unat (concat window);
          m = np_mean xs
      in sum_list (map (\<lambda>x. (of_nat x - m) * (of_nat x - m)) xs) / of_nat (length xs))"

text \<open>\<open>np.abs(a - b)\<close> on two \<open>uint8\<close> rows: the subtraction is done in \<open>uint8\<close> and
  wraps; \<open>np.abs\<close> of an unsigned array is the identity.\<close>

definition row_diff :: "gray_row \<Rightarrow> gray_row \<Rightarrow> gray_row" where
  "row_diff a b = map2 (\<lambda>x y. x - y) a b"

definition diff_mean :: "gray_row \<Rightarrow> rat" where
  "diff_mean d = np_mean (map unat d)"

definition exceed_portion :: "rat \<Rightarrow> gray_row \<Rightarrow> rat" where
  "exceed_portion diff_thr d =
     np_mean (map (\<lambda>x. if diff_thr < of_nat (unat x) then 1 else 0) d)"

definition is_border :: "rat \<Rightarrow> rat \<Rightarrow> gray_row \<Rightarrow> bool" where
  "is_border diff_thr portion_thr d =
     (diff_thr < diff_mean d \<and> portion_thr < exceed_portion diff_thr d)"

definition line_confidence :: "int \<Rightarrow> int \<Rightarrow> gray_row \<Rightarrow> gray_row \<Rightarrow> rat" where
  "line_confidence img_height pos diff_top diff_bottom =
     (let confidence = max (diff_mean diff_top) (diff_mean diff_bottom);
          edge_proximity = (of_int (min pos (img_height - pos)) / of_int img_height :: rat)
      in if edge_proximity < 5 / 100 then confidence * (3 / 2) else confidence)"

text \<open>One iteration of the row loop at index \<open>i\<close>, for \<open>window_size + 1 \<le> i\<close> and
  \<open>i < len(img) - window_size - 1\<close>. With \<open>window_size = 0\<close> the slice \<open>img[i:i]\<close> is
  empty and \<open>window[0]\<close> raises IndexError: the result \<open>None\<close>.\<close>

definition candidate_at ::
  "gray \<Rightarrow> rat \<Rightarrow> rat \<Rightarrow> rat \<Rightarrow> nat \<Rightarrow> nat \<Rightarrow> candidate list option" where
  "candidate_at img var_thr diff_thr portion_thr window_size i =
     (let upper = img ! (i - window_size - 1);
          window = take window_size (drop (i - window_size) img);
          lower = img ! i
      in if window = [] then None
         else
           let is_blank = (np_var window < var_thr);
               diff_top = row_diff upper (hd window);
               is_border_top = is_border diff_thr portion_thr diff_top;
               diff_bottom = row_diff lower (last window);
               is_border_bottom = is_border diff_thr portion_thr diff_bottom
           in if is_blank \<and> (is_border_top \<or> is_border_bottom)
              then
                let pos = (if is_border_bottom then int i else int i - int window_size)
                in Some [(pos, line_confidence (int (length img)) pos diff_top diff_bottom)]
              else Some [])"

fun collect_candidates ::
  "gray \<Rightarrow> rat \<Rightarrow> rat \<Rightarrow> rat \<Rightarrow> nat \<Rightarrow> nat list \<Rightarrow> candidate list option" where
  "collect_candidates img var_thr diff_thr portion_thr window_size [] = Some []"
| "collect_candidates img var_thr diff_thr portion_thr window_size (i # is) =
     (case candidate_at img var_thr diff_thr portion_thr window_size i of
        None \<Rightarrow> None
      | Some c \<Rightarrow>
          (case collect_candidates img var_thr diff_thr portion_thr window_size is of
             None \<Rightarrow> None
           | Some cs \<Rightarrow> Some (c @ cs)))"

definition candidate_lines ::
  "gray \<Rightarrow> rat \<Rightarrow> rat \<Rightarrow> rat \<Rightarrow> nat \<Rightarrow> candidate list option" where
  "candidate_lines img var_thr diff_thr portion_thr window_size =
     collect_candidates img var_thr diff_thr portion_thr window_size
       [window_size + 1 ..< length img - window_size - 1]"

subsection \<open>separation\_line\_detection: selection (lines 89-135)\<close>

text \<open>\<open>list.sort(key=lambda x: x[1], reverse=True)\<close> is stable, also with
  \<open>reverse=True\<close>; \<open>sort_key\<close> is a stable insertion sort.\<close>

definition sort_by_confidence :: "candidate list \<Rightarrow> candidate list" where
  "sort_by_confidence cs = sort_key (\<lambda>c. - snd c) cs"

definition far_enough :: "int \<Rightarrow> int list \<Rightarrow> int \<Rightarrow> bool" where
  "far_enough d selected pos = list_all (\<lambda>existing_pos. d \<le> \<bar>pos - existing_pos\<bar>) selected"

fun greedy_select :: "int \<Rightarrow> int list \<Rightarrow> int list \<Rightarrow> int list" where
  "greedy_select d selected [] = selected"
| "greedy_select d selected (pos # rest) =
     greedy_select d (if far_enough d selected pos then selected @ [pos] else selected) rest"

definition select_lines :: "int \<Rightarrow> candidate list \<Rightarrow> int list" where
  "select_lines min_line_distance candidate_lines0 =
     (if candidate_lines0 = [] then []
      else
        let cands = sort_by_confidence candidate_lines0;
            selected_lines = sort (greedy_select min_line_distance [] (map fst cands))
        in if 3 \<le> length selected_lines then selected_lines
           else
             let top_line = fst (hd cands);
                 adaptive_min_distance = min_line_distance div 2
             in sort (greedy_select adaptive_min_distance [top_line] (map fst (tl cands))))"

text \<open>\<open>int(img_height * 0.03)\<close> and \<open>int(img_height * 0.05)\<close>: the integer part of the
  product, here computed exactly.\<close>

definition auto_distance :: "int \<Rightarrow> int \<Rightarrow> int \<Rightarrow> int" where
  "auto_distance percent img_height min_line_distance =
     (if min_line_distance \<le> 0 then (img_height * percent) div 100 else min_line_distance)"

definition separation_line_detection ::
  "gray \<Rightarrow> rat \<Rightarrow> rat \<Rightarrow> rat \<Rightarrow> nat \<Rightarrow> int \<Rightarrow> int list option" where
  "separation_line_detection img var_thr diff_thr portion_thr window_size min_line_distance =
     (case candidate_lines img var_thr diff_thr portion_thr window_size of
        None \<Rightarrow> None
      | Some cands \<Rightarrow>
          Some (select_lines (auto_distance 3 (int (length img)) min_line_distance) cands))"

subsection \<open>enhanced\_image\_segmentation and get\_content\_sections (lines 137-277)\<close>

text \<open>The two detectors of the package \<open>Web_page_Screenshot_Segmentation\<close> are external:
  their results \<open>blank_regions\<close> and \<open>color_regions\<close> are parameters.\<close>

definition near_any :: "int \<Rightarrow> int \<Rightarrow> int list \<Rightarrow> bool" where
  "near_any min_line_distance line others =
     list_ex (\<lambda>existing. (of_int \<bar>line - existing\<bar> :: rat) < of_int min_line_distance / 2) others"

definition blank_confidence :: "int \<Rightarrow> int list \<Rightarrow> int \<Rightarrow> candidate" where
  "blank_confidence d lines_1 line = (line, if near_any d line lines_1 then 9 / 10 else 7 / 10)"

definition color_confidence :: "int \<Rightarrow> int list \<Rightarrow> int list \<Rightarrow> int \<Rightarrow> candidate" where
  "color_confidence d lines_1 blank_regions line =
     (line, if near_any d line lines_1 then 9 / 10
            else if near_any d line blank_regions then 75 / 100
            else 6 / 10)"

definition all_candidates :: "int \<Rightarrow> int list \<Rightarrow> int list \<Rightarrow> int list \<Rightarrow> candidate list" where
  "all_candidates d lines_1 blank_regions color_regions =
     map (\<lambda>line. (line, 8 / 10)) lines_1
     @ map (blank_confidence d lines_1) blank_regions
     @ map (color_confidence d lines_1 blank_regions) color_regions"

definition fuse_lines :: "rat \<Rightarrow> int \<Rightarrow> candidate list \<Rightarrow> int list" where
  "fuse_lines confidence_threshold d cands =
     sort (greedy_select d []
       (map fst (filter (\<lambda>c. \<not> snd c < confidence_threshold) (sort_by_confidence cands))))"

definition all_boundaries :: "int \<Rightarrow> int list \<Rightarrow> int list" where
  "all_boundaries img_height lines = [0] @ lines @ [img_height]"

definition get_content_sections :: "int \<Rightarrow> int list \<Rightarrow> (int \<times> int) list" where
  "get_content_sections img_height lines =
     (let bs = all_boundaries img_height lines
      in map (\<lambda>i. (bs ! i, bs ! (i + 1))) [0 ..< length bs - 1])"

definition enhanced_image_segmentation ::
  "gray \<Rightarrow> rat \<Rightarrow> int \<Rightarrow> rat \<Rightarrow> rat \<Rightarrow> rat \<Rightarrow> nat \<Rightarrow> int list \<Rightarrow> int list
     \<Rightarrow> (int list \<times> (int \<times> int) list) option" where
  "enhanced_image_segmentation img confidence_threshold min_line_distance
       blank_var_thr blank_diff_thr blank_portion_thr window_size blank_regions color_regions =
     (let img_height = int (length img);
          d = auto_distance 5 img_height min_line_distance
      in case separation_line_detection img blank_var_thr blank_diff_thr blank_portion_thr
                window_size d of
           None \<Rightarrow> None
         | Some lines_1 \<Rightarrow>
             let selected_lines =
                   fuse_lines confidence_threshold d
                     (all_candidates d lines_1 blank_regions color_regions)
             in Some (selected_lines, get_content_sections img_height selected_lines))"

text \<open>Whether pixel row \<open>y\<close> lies in the half-open section \<open>(y_min, y_max)\<close>, and in how
  many sections of a list it lies.\<close>

definition in_section :: "int \<Rightarrow> int \<times> int \<Rightarrow> bool" where
  "in_section y s = (fst s \<le> y \<and> y < snd s)"

definition sections_covering :: "int \<Rightarrow> (int \<times> int) list \<Rightarrow> nat" where
  "sections_covering y secs = length (filter (in_section y) secs)"

subsection \<open>The border test as the specification words it\<close>

text \<open>The specification's border test takes the per-column absolute intensity difference
  \<open>|row_outside - row_edge|\<close> of the two rows, as numbers.\<close>

definition abs_row_diff :: "gray_row \<Rightarrow> gray_row \<Rightarrow> nat list" where
  "abs_row_diff a b = map2 (\<lambda>x y. nat \<bar>int (unat x) - int (unat y)\<bar>) a b"

definition spec_is_border :: "rat \<Rightarrow> rat \<Rightarrow> nat list \<Rightarrow> bool" where
  "spec_is_border diff_thr portion_thr d =
     (diff_thr < np_mean d
      \<and> portion_thr < np_mean (map (\<lambda>x. if diff_thr < of_nat x then 1 else 0) d))"

section \<open>Layout synthesizer (description\_generation/helper.py, lines 447-708)\<close>

text \<open>
  The component tree is the JSON structure built by \<open>convert_json_structure\<close>: a component
  has the optional keys \<open>id\<close>, \<open>type\<close>, \<open>coordinates\<close> and \<open>description\<close>; a description
  has the optional media list (of \<open>content\<close>), \<open>children\<close>, \<open>styles\<close> and \<open>layout\<close>. A
  coordinates dictionary is an association list, read with the default 0 where the source
  uses \<open>.get(key, 0)\<close>. The functions mutate the tree in place; the model returns the
  updated tree. A raised KeyError is the result \<open>None\<close>. Percentages are \<open>float\<close> in the
  source and exact rationals here; the strings built from them are kept as values.
\<close>

type_synonym int_dict = "(string \<times> int) list"

definition dict_get :: "int_dict \<Rightarrow> string \<Rightarrow> int" where
  "dict_get d k = (case map_of d k of None \<Rightarrow> 0 | Some v \<Rightarrow> v)"

record styles =
  s_width :: int
  s_height :: int
  colorPalette :: "string list"

record 'a edges =
  e_top :: 'a
  e_right :: 'a
  e_bottom :: 'a
  e_left :: 'a

datatype tw_class =
    Positioning string
  | WPercent rat | HPercent rat
  | TopPercent rat | BottomPercent rat | LeftPercent rat | RightPercent rat
  | WPx int | HPx int | TopPx int | LeftPx int

record layout =
  percent_position_parent :: "rat edges"
  percent_position_body :: "rat edges"
  tailwind_classes :: "tw_class list"

record media_layout =
  position_parent :: "int edges"
  position_body :: "int edges"
  media_tailwind_classes :: "tw_class list"

datatype media_item = MediaItem
  (m_type: string)
  (m_file_path: string)
  (m_coordinates: "int_dict option")
  (m_styles: "styles option")
  (m_layout: "media_layout option")

datatype component = Component
  (c_id: "string option")
  (c_type: "string option")
  (c_coordinates: "int_dict option")
  (c_description: "description option")
and description = Description
  (d_media: "media_item list option")
  (d_children: "component list option")
  (d_styles: "styles option")
  (d_layout: "layout option")


text \<open>\<open>str.lower()\<close> on the ASCII letters.\<close>

definition lower_char :: "char \<Rightarrow> char" where
  "lower_char c =
     (let n = (of_char c :: nat) in if 65 \<le> n \<and> n \<le> 90 then char_of (n + 32) else c)"

definition py_lower :: "string \<Rightarrow> string" where
  "py_lower s = map lower_char s"

definition get_str :: "string option \<Rightarrow> string" where
  "get_str v = (case v of None \<Rightarrow> [] | Some s \<Rightarrow> s)"

definition children_of :: "component \<Rightarrow> component list" where
  "children_of c =
     (case c_description c of
        None \<Rightarrow> []
      | Some d \<Rightarrow> (case d_children d of None \<Rightarrow> [] | Some cs \<Rightarrow> cs))"

definition boxes_overlap :: "int_dict \<Rightarrow> int_dict \<Rightarrow> bool" where
  "boxes_overlap comp_coords sib_coords =
     (let comp_x1 = dict_get comp_coords ''x1''; comp_y1 = dict_get comp_coords ''y1'';
          comp_x2 = dict_get comp_coords ''x2''; comp_y2 = dict_get comp_coords ''y2'';
          sib_x1 = dict_get sib_coords ''x1''; sib_y1 = dict_get sib_coords ''y1'';
          sib_x2 = dict_get sib_coords ''x2''; sib_y2 = dict_get sib_coords ''y2'';
          x_overlap = (comp_x1 < sib_x2 \<and> comp_x2 > sib_x1);
          y_overlap = (comp_y1 < sib_y2 \<and> comp_y2 > sib_y1)
      in x_overlap \<and> y_overlap)"

fun overlap_loop :: "component \<Rightarrow> int_dict \<Rightarrow> component list \<Rightarrow> bool" where
  "overlap_loop component comp_coords [] = False"
| "overlap_loop component comp_coords (sibling # siblings) =
     (case c_coordinates sibling of
        None \<Rightarrow> overlap_loop component comp_coords siblings
      | Some sib_coords \<Rightarrow>
          if c_id sibling = c_id component then overlap_loop component comp_coords siblings
          else if boxes_overlap comp_coords sib_coords then True
          else overlap_loop component comp_coords siblings)"

definition has_overlap_with_siblings :: "component \<Rightarrow> component \<Rightarrow> bool" where
  "has_overlap_with_siblings component parent =
     (case c_coordinates component of
        None \<Rightarrow> False
      | Some comp_coords \<Rightarrow>
          if comp_coords = [] then False
          else overlap_loop component comp_coords (children_of parent))"

definition absolute_components :: "string list" where
  "absolute_components =
     [''modal'', ''tooltip'', ''dropdown'', ''popup'', ''overlay'', ''dialog'', ''menu'']"

definition absolute_container_parents :: "string list" where
  "absolute_container_parents =
     [''card'', ''container'', ''section'', ''article'', ''main'', ''div'', ''header'', ''footer'']"

definition determine_positioning :: "component \<Rightarrow> component \<Rightarrow> string" where
  "determine_positioning component parent =
     (let component_type = py_lower (get_str (c_type component));
          parent_type = py_lower (get_str (c_type parent));
          has_overlap = has_overlap_with_siblings component parent
      in if has_overlap then ''absolute''
         else if component_type \<in> set absolute_components then ''absolute''
         else if parent_type \<in> set absolute_container_parents
           then (if length (children_of parent) \<le> 1 then ''relative'' else ''absolute'')
         else ''relative'')"

fun subtree :: "component \<Rightarrow> component list"
  and subtree_d :: "description \<Rightarrow> component list" where
  "subtree (Component i t c d) = Component i t c d # (case d of None \<Rightarrow> [] | Some x \<Rightarrow> subtree_d x)"
| "subtree_d (Description m ch s l) = (case ch of None \<Rightarrow> [] | Some cs \<Rightarrow> concat (map subtree cs))"





















text \<open>Two overlapping boxes under a \<open>div\<close>, and a \<open>div\<close> with a given list of children.\<close>

definition box_a :: component where
  "box_a = Component (Some ''comp_2'') (Some ''button'')
     (Some [(''y1'', 0), (''x1'', 0), (''y2'', 100), (''x2'', 100)]) None"

definition box_b :: component where
  "box_b = Component (Some ''comp_3'') (Some ''text'')
     (Some [(''y1'', 50), (''x1'', 50), (''y2'', 150), (''x2'', 150)]) None"

definition div_of :: "component list \<Rightarrow> component" where
  "div_of cs = Component (Some ''comp_1'') (Some ''div'')
     (Some [(''y1'', 0), (''x1'', 0), (''y2'', 1000), (''x2'', 1000)])
     (Some (Description None (Some cs) None None))"


section \<open>Colour palette fallback (description\_generation/helper.py, lines 794-824)\<close>

text \<open>An RGB crop is a list of rows of pixels, each three unsigned bytes;
  \<open>np.array(image).reshape(-1, 3)\<close> is the list of all its pixels.\<close>

type_synonym pixel = "8 word \<times> 8 word \<times> 8 word"

definition hex_digit :: "nat \<Rightarrow> char" where
  "hex_digit n = ''0123456789abcdef'' ! n"

definition hex2 :: "8 word \<Rightarrow> string" where
  "hex2 w = [hex_digit (unat w div 16), hex_digit (unat w mod 16)]"

definition hex_color :: "pixel \<Rightarrow> string" where
  "hex_color p = (case p of (r, g, b) \<Rightarrow> ''#'' @ hex2 r @ hex2 g @ hex2 b)"

text \<open>Python slices: \<open>xs[:n]\<close> and \<open>xs[::step]\<close>, also for negative \<open>n\<close> and \<open>step\<close>;
  a step of 0 raises ValueError.\<close>

definition py_take :: "int \<Rightarrow> 'a list \<Rightarrow> 'a list" where
  "py_take n xs = (if 0 \<le> n then take (nat n) xs else take (length xs - nat (- n)) xs)"

fun every_nth :: "nat \<Rightarrow> nat \<Rightarrow> 'a list \<Rightarrow> 'a list" where
  "every_nth step k [] = []"
| "every_nth step k (x # xs) =
     (if k = 0 then x # every_nth step (step - 1) xs else every_nth step (k - 1) xs)"

definition py_step :: "int \<Rightarrow> 'a list \<Rightarrow> 'a list option" where
  "py_step step xs =
     (if step = 0 then None
      else if 0 < step then Some (every_nth (nat step) 0 xs)
      else Some (every_nth (nat (- step)) 0 (rev xs)))"

text \<open>\<open>np.unique(pixels, axis=0)\<close>: the distinct rows in lexicographic order.\<close>

definition np_unique :: "pixel list \<Rightarrow> pixel list" where
  "np_unique pixels = sort (remdups pixels)"

text \<open>The whole body runs under \<open>try ... except Exception: return ["#ffffff"]\<close>: the
  division by zero and the zero step end there.\<close>

definition fallback_extract_colors :: "pixel list list \<Rightarrow> int \<Rightarrow> string list" where
  "fallback_extract_colors crop max_colors =
     (let pixels = concat crop
      in if length pixels \<le> 1 then [''#ffffff'']
         else
           let unique_colors = np_unique pixels
           in if max_colors < int (length unique_colors)
              then
                (if max_colors = 0 then [''#ffffff'']
                 else
                   case py_step (int (length unique_colors) div max_colors) unique_colors of
                     None \<Rightarrow> [''#ffffff'']
                   | Some stepped \<Rightarrow>
                       map hex_color (py_take max_colors (py_take max_colors stepped)))
              else map hex_color (py_take max_colors unique_colors))"

section \<open>Bounding-box post-processing: nested-element filter (bbox/helper.py, lines 274-324)\<close>

text \<open>A component of the flat list is a dictionary with a \<open>label\<close> and a \<open>box_percent\<close>
  list of numbers; further keys are the record's extension, so that \<open>component == parent\<close>
  is equality of records. An IndexError is the result \<open>None\<close>.\<close>

record bcomp =
  label :: string
  box_percent :: "rat list"

definition parent_elements :: "string list" where
  "parent_elements =
     [''div'', ''header'', ''footer'', ''sidebar'', ''navbar'', ''search-bar'', ''form'']"

definition is_parent_label :: "string \<Rightarrow> bool" where
  "is_parent_label l = list_ex (\<lambda>parent. l = parent \<or> prefix (parent @ ''_'') l) parent_elements"

fun str_contains :: "string \<Rightarrow> string \<Rightarrow> bool" where
  "str_contains sub [] = (sub = [])"
| "str_contains sub (c # cs) = (prefix sub (c # cs) \<or> str_contains sub cs)"

text \<open>\<open>box[i]\<close> on a list: IndexError (\<open>None\<close>) out of range.\<close>

definition idx :: "rat list \<Rightarrow> nat \<Rightarrow> rat option" where
  "idx xs i = (if i < length xs then Some (xs ! i) else None)"

text \<open>The containment condition, evaluated left to right with Python's short-circuit
  \<open>and\<close>; \<open>margin = 0.5\<close>.\<close>

definition nested_test :: "rat list \<Rightarrow> rat list \<Rightarrow> bool option" where
  "nested_test box parent_box =
     do {
       b0 \<leftarrow> idx box 0; p0 \<leftarrow> idx parent_box 0;
       if \<not> p0 - 1 / 2 \<le> b0 then Some False
       else do {
         b2 \<leftarrow> idx box 2; p2 \<leftarrow> idx parent_box 2;
         if \<not> b2 \<le> p2 + 1 / 2 then Some False
         else do {
           b1 \<leftarrow> idx box 1; p1 \<leftarrow> idx parent_box 1;
           if \<not> p1 - 1 / 2 \<le> b1 then Some False
           else do {
             b3 \<leftarrow> idx box 3; p3 \<leftarrow> idx parent_box 3;
             if \<not> b3 \<le> p3 + 1 / 2 then Some False
             else Some (b0 \<noteq> p0 \<or> b1 \<noteq> p1 \<or> b2 \<noteq> p2 \<or> b3 \<noteq> p3)
           }
         }
       }
     }"

fun should_keep :: "'a bcomp_scheme \<Rightarrow> 'a bcomp_scheme list \<Rightarrow> bool option" where
  "should_keep component [] = Some True"
| "should_keep component (parent # parent_boxes) =
     (if component = parent then should_keep component parent_boxes
      else case nested_test (box_percent component) (box_percent parent) of
             None \<Rightarrow> None
           | Some True \<Rightarrow> Some False
           | Some False \<Rightarrow> should_keep component parent_boxes)"

fun filter_loop :: "'a bcomp_scheme list \<Rightarrow> 'a bcomp_scheme list \<Rightarrow> 'a bcomp_scheme list option" where
  "filter_loop parent_boxes [] = Some []"
| "filter_loop parent_boxes (component # components) =
     (if str_contains ''image'' (py_lower (label component))
      then map_option (\<lambda>rest. component # rest) (filter_loop parent_boxes components)
      else case should_keep component parent_boxes of
             None \<Rightarrow> None
           | Some keep \<Rightarrow>
               map_option (\<lambda>rest. if keep then component # rest else rest)
                 (filter_loop parent_boxes components))"

definition filter_nested_elements :: "'a bcomp_scheme list \<Rightarrow> 'a bcomp_scheme list option" where
  "filter_nested_elements components =
     filter_loop (filter (\<lambda>c. is_parent_label (py_lower (label c))) components) components"


definition keepable :: "'a bcomp_scheme list \<Rightarrow> 'a bcomp_scheme \<Rightarrow> bool" where
  "keepable ps c = (str_contains ''image'' (py_lower (label c)) \<or> should_keep c ps = Some True)"

section \<open>Bounding-box response parser (bbox/helper.py, lines 137-209)\<close>

text \<open>A parsed JSON value, as \<open>json.loads\<close> returns it: \<open>None\<close>, a bool, a number, a
  string, a list or a dictionary (an association list in insertion order). Strings are
  lists of 8-bit characters.\<close>

datatype json =
    JNull
  | JBool bool
  | JNum rat
  | JStr string
  | JArr "json list"
  | JObj "(string \<times> json) list"

subsection \<open>String operations of the parser\<close>

definition is_space :: "char \<Rightarrow> bool" where
  "is_space c = (let n = (of_char c :: nat) in (9 \<le> n \<and> n \<le> 13) \<or> (28 \<le> n \<and> n \<le> 32))"

definition strip :: "string \<Rightarrow> string" where
  "strip s = rev (dropWhile is_space (rev (dropWhile is_space s)))"

fun find_sub :: "string \<Rightarrow> string \<Rightarrow> nat option" where
  "find_sub sub [] = (if sub = [] then Some 0 else None)"
| "find_sub sub (c # cs) =
     (if prefix sub (c # cs) then Some 0 else map_option Suc (find_sub sub cs))"

fun rfind_sub :: "string \<Rightarrow> string \<Rightarrow> nat option" where
  "rfind_sub sub [] = (if sub = [] then Some 0 else None)"
| "rfind_sub sub (c # cs) =
     (case rfind_sub sub cs of
        Some i \<Rightarrow> Some (Suc i)
      | None \<Rightarrow> if prefix sub (c # cs) then Some 0 else None)"

definition slice :: "string \<Rightarrow> nat \<Rightarrow> nat \<Rightarrow> string" where
  "slice s start stop = take (stop - start) (drop start s)"

definition fence :: string where
  "fence = replicate 3 (CHR 0x60)"

definition strip_fences :: "string \<Rightarrow> string" where
  "strip_fences cleaned_text =
     (case find_sub (fence @ ''json'') cleaned_text of
        Some i \<Rightarrow>
          (case rfind_sub fence cleaned_text of
             Some j \<Rightarrow> strip (slice cleaned_text (i + 7) j)
           | None \<Rightarrow> cleaned_text)
      | None \<Rightarrow>
          (case find_sub fence cleaned_text of
             Some i \<Rightarrow>
               (case rfind_sub fence cleaned_text of
                  Some j \<Rightarrow> strip (slice cleaned_text (i + 3) j)
                | None \<Rightarrow> cleaned_text)
           | None \<Rightarrow> cleaned_text))"

text \<open>\<open>str.replace(old, new)\<close> for a non-empty \<open>old\<close>: the occurrences are replaced from
  the left, without overlap.\<close>

function replace :: "string \<Rightarrow> string \<Rightarrow> string \<Rightarrow> string" where
  "replace old new [] = []"
| "replace old new (c # cs) =
     (if old \<noteq> [] \<and> prefix old (c # cs)
      then new @ replace old new (drop (length old) (c # cs))
      else c # replace old new cs)"
  by pat_completeness auto
termination
  by (relation "measure (\<lambda>(old, new, s). length s)") auto

definition is_digit :: "char \<Rightarrow> bool" where
  "is_digit c = (let n = (of_char c :: nat) in 48 \<le> n \<and> n \<le> 57)"

text \<open>\<open>re.sub(r'(\d+),(\d+)', r'\1.\2', text)\<close>: the leftmost match starts at the first
  digit of a run that is followed by a comma and a digit; both runs are taken whole, and
  the scan goes on after the second run.\<close>

function re_sub_decimal :: "string \<Rightarrow> string" where
  "re_sub_decimal [] = []"
| "re_sub_decimal (c # cs) =
     (if \<not> is_digit c then c # re_sub_decimal cs
      else
        let run1 = c # takeWhile is_digit cs;
            rest = dropWhile is_digit cs
        in case rest of
             [] \<Rightarrow> run1
           | k # rest2 \<Rightarrow>
               if k = CHR '','' \<and> rest2 \<noteq> [] \<and> is_digit (hd rest2)
               then run1 @ ''.'' @ takeWhile is_digit rest2
                      @ re_sub_decimal (dropWhile is_digit rest2)
               else run1 @ k # re_sub_decimal rest2)"
  by pat_completeness auto
termination
proof (relation "measure length")
  show "wf (measure length)" by simp
next
  fix c :: char and cs
  show "(cs, c # cs) \<in> measure length" by simp
next
  fix c :: char and cs x xa x21 x22
  assume "xa = dropWhile is_digit cs" and "xa = x21 # x22"
  then have "length (x21 # x22) \<le> length cs"
    using length_dropWhile_le [of is_digit cs] by simp
  then show "(dropWhile is_digit x22, c # cs) \<in> measure length"
    using length_dropWhile_le [of is_digit x22] by simp
  show "(x22, c # cs) \<in> measure length"
    using \<open>length (x21 # x22) \<le> length cs\<close> by simp
qed


subsection \<open>The standard library's \<open>json.loads\<close>\<close>

text \<open>A recursive-descent reader of the JSON grammar, as \<open>json.loads\<close> accepts it: no
  trailing commas, no text after the value. Numbers are read exactly; strings have the
  simple escapes; a repeated key keeps its first position and takes the last value, as a
  Python \<open>dict\<close> does. The fuel bounds the nesting depth and is twice the length of the
  text. \<open>None\<close> is \<open>JSONDecodeError\<close>.\<close>

definition is_json_ws :: "char \<Rightarrow> bool" where
  "is_json_ws c = (c = CHR '' '' \<or> c = CHR 0x09 \<or> c = CHR 0x0A \<or> c = CHR 0x0D)"

definition skip_ws :: "string \<Rightarrow> string" where
  "skip_ws s = dropWhile is_json_ws s"

definition digit_val :: "char \<Rightarrow> nat" where
  "digit_val c = of_char c - 48"

definition digits_val :: "string \<Rightarrow> nat" where
  "digits_val ds = foldl (\<lambda>acc c. 10 * acc + digit_val c) 0 ds"

definition parse_number :: "string \<Rightarrow> (json \<times> string) option" where
  "parse_number s =
     (let neg = (s \<noteq> [] \<and> hd s = CHR ''-'');
          s1 = (if neg then tl s else s);
          ip = takeWhile is_digit s1;
          r1 = dropWhile is_digit s1
      in if ip = [] \<or> (1 < length ip \<and> hd ip = CHR ''0'') then None
         else
           let has_frac = (r1 \<noteq> [] \<and> hd r1 = CHR ''.'');
               fp = (if has_frac then takeWhile is_digit (tl r1) else []);
               r2 = (if has_frac then dropWhile is_digit (tl r1) else r1)
           in if has_frac \<and> fp = [] then None
              else
                let has_exp = (r2 \<noteq> [] \<and> (hd r2 = CHR ''e'' \<or> hd r2 = CHR ''E''));
                    r3 = (if has_exp then tl r2 else r2);
                    eneg = (has_exp \<and> r3 \<noteq> [] \<and> hd r3 = CHR ''-'');
                    r4 = (if has_exp \<and> r3 \<noteq> [] \<and> (hd r3 = CHR ''-'' \<or> hd r3 = CHR ''+'')
                          then tl r3 else r3);
                    ep = (if has_exp then takeWhile is_digit r4 else []);
                    r5 = (if has_exp then dropWhile is_digit r4 else r2);
                    mant = (of_nat (digits_val ip) :: rat)
                             + of_nat (digits_val fp) / 10 ^ length fp;
                    scaled = (if eneg then mant / 10 ^ digits_val ep
                              else mant * 10 ^ digits_val ep)
                in if has_exp \<and> ep = [] then None
                   else Some (JNum (if neg then - scaled else scaled), r5))"

fun parse_string :: "string \<Rightarrow> string \<Rightarrow> (string \<times> string) option" where
  "parse_string acc [] = None"
| "parse_string acc [c] = (if c = CHR 0x22 then Some (acc, []) else None)"
| "parse_string acc (c # d # cs) =
     (if c = CHR 0x22 then Some (acc, d # cs)
      else if c = CHR 0x5C then
        (if d = CHR 0x22 \<or> d = CHR 0x5C \<or> d = CHR ''/'' then parse_string (acc @ [d]) cs
         else if d = CHR ''n'' then parse_string (acc @ [CHR 0x0A]) cs
         else if d = CHR ''t'' then parse_string (acc @ [CHR 0x09]) cs
         else if d = CHR ''r'' then parse_string (acc @ [CHR 0x0D]) cs
         else if d = CHR ''b'' then parse_string (acc @ [CHR 0x08]) cs
         else if d = CHR ''f'' then parse_string (acc @ [CHR 0x0C]) cs
         else None)
      else if (of_char c :: nat) < 32 then None
      else parse_string (acc @ [c]) (d # cs))"

fun parse_value :: "nat \<Rightarrow> string \<Rightarrow> (json \<times> string) option"
  and parse_elems :: "nat \<Rightarrow> json list \<Rightarrow> string \<Rightarrow> (json \<times> string) option"
  and parse_members :: "nat \<Rightarrow> (string \<times> json) list \<Rightarrow> string \<Rightarrow> (json \<times> string) option"
  where
  "parse_value 0 s = None"
| "parse_value (Suc n) s =
     (case skip_ws s of
        [] \<Rightarrow> None
      | c # cs \<Rightarrow>
          if c = CHR ''['' then
            (case skip_ws cs of
               [] \<Rightarrow> None
             | d # ds \<Rightarrow> if d = CHR '']'' then Some (JArr [], ds) else parse_elems n [] cs)
          else if c = CHR ''{'' then
            (case skip_ws cs of
               [] \<Rightarrow> None
             | d # ds \<Rightarrow> if d = CHR ''}'' then Some (JObj [], ds) else parse_members n [] cs)
          else if c = CHR 0x22 then
            map_option (\<lambda>(str, rest). (JStr str, rest)) (parse_string [] cs)
          else if prefix ''true'' (c # cs) then Some (JBool True, drop 4 (c # cs))
          else if prefix ''false'' (c # cs) then Some (JBool False, drop 5 (c # cs))
          else if prefix ''null'' (c # cs) then Some (JNull, drop 4 (c # cs))
          else parse_number (c # cs))"
| "parse_elems 0 acc s = None"
| "parse_elems (Suc n) acc s =
     (case parse_value n s of
        None \<Rightarrow> None
      | Some (v, rest) \<Rightarrow>
          (case skip_ws rest of
             [] \<Rightarrow> None
           | c # cs \<Rightarrow>
               if c = CHR '','' then parse_elems n (acc @ [v]) cs
               else if c = CHR '']'' then Some (JArr (acc @ [v]), cs)
               else None))"
| "parse_members 0 acc s = None"
| "parse_members (Suc n) acc s =
     (case skip_ws s of
        [] \<Rightarrow> None
      | q # qs \<Rightarrow>
          if q \<noteq> CHR 0x22 then None
          else
            (case parse_string [] qs of
               None \<Rightarrow> None
             | Some (key, rest) \<Rightarrow>
                 (case skip_ws rest of
                    [] \<Rightarrow> None
                  | c # cs \<Rightarrow>
                      if c \<noteq> CHR '':'' then None
                      else
                        (case parse_value n cs of
                           None \<Rightarrow> None
                         | Some (v, rest2) \<Rightarrow>
                             (case skip_ws rest2 of
                                [] \<Rightarrow> None
                              | e # es \<Rightarrow>
                                  if e = CHR '','' then parse_members n (AList.update key v acc) es
                                  else if e = CHR ''}''
                                    then Some (JObj (AList.update key v acc), es)
                                  else None)))))"

definition json_loads :: "string \<Rightarrow> json option" where
  "json_loads s =
     (case parse_value (2 * length s + 2) s of
        None \<Rightarrow> None
      | Some (v, rest) \<Rightarrow> if skip_ws rest = [] then Some v else None)"


subsection \<open>parse\_gemini\_response (lines 137-209)\<close>

text \<open>Python's \<open>len\<close>, iteration and \<open>/ 10\<close> on a parsed JSON value; \<open>None\<close> is the
  TypeError of a value that has no length, is not iterable or is not a number
  (\<open>bool\<close> is a number in Python).\<close>

definition py_len :: "json \<Rightarrow> nat option" where
  "py_len v =
     (case v of
        JStr s \<Rightarrow> Some (length s)
      | JArr xs \<Rightarrow> Some (length xs)
      | JObj fs \<Rightarrow> Some (length fs)
      | _ \<Rightarrow> None)"

definition py_iter :: "json \<Rightarrow> json list option" where
  "py_iter v =
     (case v of
        JStr s \<Rightarrow> Some (map (\<lambda>c. JStr [c]) s)
      | JArr xs \<Rightarrow> Some xs
      | JObj fs \<Rightarrow> Some (map (\<lambda>f. JStr (fst f)) fs)
      | _ \<Rightarrow> None)"

definition py_div10 :: "json \<Rightarrow> json option" where
  "py_div10 v =
     (case v of
        JNum q \<Rightarrow> Some (JNum (q / 10))
      | JBool b \<Rightarrow> Some (JNum (if b then 1 / 10 else 0))
      | _ \<Rightarrow> None)"

definition convert_box_2d :: "json \<Rightarrow> json \<Rightarrow> json list option" where
  "convert_box_2d lbl box =
     (case py_iter box of
        Some [y_min, x_min, y_max, x_max] \<Rightarrow>
          do {
            a \<leftarrow> py_div10 x_min;
            b \<leftarrow> py_div10 y_min;
            c \<leftarrow> py_div10 x_max;
            d \<leftarrow> py_div10 y_max;
            Some [JObj [(''label'', lbl), (''box_percent'', JArr [a, b, c, d])]]
          }
      | _ \<Rightarrow> None)"

definition keep_box_percent :: "(string \<times> json) list \<Rightarrow> json list option" where
  "keep_box_percent obj =
     (case map_of obj ''box_percent'' of
        None \<Rightarrow> Some []
      | Some bp \<Rightarrow>
          (case py_len bp of
             None \<Rightarrow> None
           | Some n \<Rightarrow> if n = 4 then Some [JObj obj] else Some []))"

definition standardize_item :: "json \<Rightarrow> json list option" where
  "standardize_item item =
     (case item of
        JObj obj \<Rightarrow>
          (case map_of obj ''label'' of
             None \<Rightarrow> Some []
           | Some lbl \<Rightarrow>
               (case map_of obj ''box_2d'' of
                  None \<Rightarrow> keep_box_percent obj
                | Some box \<Rightarrow>
                    (case py_len box of
                       None \<Rightarrow> None
                     | Some n \<Rightarrow> if n = 4 then convert_box_2d lbl box
                                else keep_box_percent obj)))
      | _ \<Rightarrow> Some [])"

definition standardize :: "json \<Rightarrow> json list option" where
  "standardize data =
     (case py_iter data of
        None \<Rightarrow> None
      | Some items \<Rightarrow> map_option concat (those (map standardize_item items)))"

fun join :: "string \<Rightarrow> string list \<Rightarrow> string" where
  "join sep [] = []"
| "join sep [x] = x"
| "join sep (x # y # ys) = x @ sep @ join sep (y # ys)"

text \<open>\<open>loads\<close> is \<open>json.loads\<close> and \<open>findall\<close> is \<open>re.findall\<close> with the pattern of the
  third tier; the result \<open>None\<close> is an exception that leaves the function.\<close>

definition parse_gemini_response ::
  "(string \<Rightarrow> json option) \<Rightarrow> (string \<Rightarrow> string list) \<Rightarrow> string \<Rightarrow> json list option" where
  "parse_gemini_response loads findall response_text =
     (if response_text = [] then Some []
      else
        let cleaned_text = strip_fences (strip response_text)
        in case loads cleaned_text of
             Some data \<Rightarrow> standardize data
           | None \<Rightarrow>
               let cleaned_text2 =
                     re_sub_decimal
                       (replace '',]'' '']'' (replace [CHR '','', CHR 0x0A, CHR '']''] [CHR 0x0A, CHR '']''] cleaned_text))
               in case loads cleaned_text2 of
                    Some data \<Rightarrow> standardize data
                  | None \<Rightarrow>
                      let matches = findall cleaned_text2
                      in if matches \<noteq> []
                         then (case loads (''['' @ join '','' matches @ '']'') of
                                 Some data \<Rightarrow> standardize data
                               | None \<Rightarrow> Some [])
                         else Some [])"




definition trailing_comma_response :: string where
  \<open>trailing_comma_response = ''[{"label":"a","box_2d":[1,2,3,4]},]''\<close>

definition repaired_response :: string where
  \<open>repaired_response = ''[{"label":"a","box_2d":[1.2,3.4]}]''\<close>


definition no_matches :: "string \<Rightarrow> string list" where
  "no_matches s = []"



section \<open>Hierarchy construction (description\_generation/helper.py, lines 208-444)\<close>

text \<open>An element of the flat input list has a bounding box of four integers
  \<open>[y_min, x_min, y_max, x_max]\<close> and a label; components are addressed by their index in
  the list. The built tree has the type of the layout synthesizer's input.\<close>

type_synonym box = "int \<times> int \<times> int \<times> int"

record element =
  e_bbox :: box
  e_label :: string

definition is_contained_within :: "box \<Rightarrow> box \<Rightarrow> bool" where
  "is_contained_within child_box parent_box =
     (case child_box of (child_y_min, child_x_min, child_y_max, child_x_max) \<Rightarrow>
      case parent_box of (parent_y_min, parent_x_min, parent_y_max, parent_x_max) \<Rightarrow>
        parent_y_min - 5 \<le> child_y_min \<and> parent_x_min - 5 \<le> child_x_min
        \<and> child_y_max \<le> parent_y_max + 5 \<and> child_x_max \<le> parent_x_max + 5)"

definition calculate_area :: "box \<Rightarrow> int" where
  "calculate_area b = (case b of (y_min, x_min, y_max, x_max) \<Rightarrow> (y_max - y_min) * (x_max - x_min))"

text \<open>\<open>min(xs, key=f)\<close>: the first element with the least key.\<close>

fun min_by :: "('a \<Rightarrow> int) \<Rightarrow> 'a \<Rightarrow> 'a list \<Rightarrow> 'a" where
  "min_by f best [] = best"
| "min_by f best (x # xs) = min_by f (if f x < f best then x else best) xs"

definition potential_parents :: "nat \<Rightarrow> element list \<Rightarrow> nat list" where
  "potential_parents element_index elements =
     filter (\<lambda>i. i \<noteq> element_index
                 \<and> is_contained_within (e_bbox (elements ! element_index)) (e_bbox (elements ! i)))
       [0 ..< length elements]"

definition find_parent_index :: "nat \<Rightarrow> element list \<Rightarrow> nat option" where
  "find_parent_index element_index elements =
     (case potential_parents element_index elements of
        [] \<Rightarrow> None
      | p # ps \<Rightarrow> Some (min_by (\<lambda>i. calculate_area (e_bbox (elements ! i))) p ps))"

function string_of_nat :: "nat \<Rightarrow> string" where
  "string_of_nat n =
     (if n < 10 then [char_of (48 + n)]
      else string_of_nat (n div 10) @ [char_of (48 + n mod 10)])"
  by pat_completeness auto
termination
  by (relation "measure id") auto

declare string_of_nat.simps [simp del]

definition comp_id :: "nat \<Rightarrow> string" where
  "comp_id i = ''comp_'' @ string_of_nat (i + 1)"

definition is_media_label :: "string \<Rightarrow> bool" where
  "is_media_label l = (py_lower l \<in> set [''image'', ''logo'', ''icon''])"

definition media_elements :: "element list \<Rightarrow> nat list" where
  "media_elements elements =
     filter (\<lambda>i. is_media_label (e_label (elements ! i))) [0 ..< length elements]"

definition children_indices :: "element list \<Rightarrow> nat \<Rightarrow> nat list" where
  "children_indices elements p =
     filter (\<lambda>i. find_parent_index i elements = Some p) [0 ..< length elements]"

text \<open>Step 3 gives a media element a tracking entry and registers it with its parent. With
  an image path this happens only when its crop is not degenerate and no exception has
  ended the step before; which media elements got their entry is the parameter
  \<open>tracked\<close> (all of them when no image path is given), and \<open>asset\<close> names their files.\<close>

definition media_indices :: "element list \<Rightarrow> (nat \<Rightarrow> bool) \<Rightarrow> nat \<Rightarrow> nat list" where
  "media_indices elements tracked p =
     filter (\<lambda>m. tracked m \<and> find_parent_index m elements = Some p) (media_elements elements)"

definition tracking_entry :: "element list \<Rightarrow> (nat \<Rightarrow> string) \<Rightarrow> nat \<Rightarrow> media_item" where
  "tracking_entry elements asset m =
     (case e_bbox (elements ! m) of (y_min, x_min, y_max, x_max) \<Rightarrow>
        MediaItem (py_lower (e_label (elements ! m))) (asset m)
          (Some [(''y_min'', y_min), (''x_min'', x_min), (''y_max'', y_max), (''x_max'', x_max)])
          None None)"

definition structural_children :: "element list \<Rightarrow> (nat \<Rightarrow> bool) \<Rightarrow> nat \<Rightarrow> nat list" where
  "structural_children elements tracked p =
     filter (\<lambda>c. c \<notin> set (media_indices elements tracked p)) (children_indices elements p)"

text \<open>\<open>_build_component_structure\<close>; the first argument bounds the depth of the recursion,
  and \<open>None\<close> is a recursion that has not come to an end within it.\<close>

fun build_component_structure ::
  "nat \<Rightarrow> element list \<Rightarrow> (nat \<Rightarrow> bool) \<Rightarrow> (nat \<Rightarrow> string) \<Rightarrow> nat \<Rightarrow> component option" where
  "build_component_structure 0 elements tracked asset component_index = None"
| "build_component_structure (Suc fuel) elements tracked asset component_index =
     (let original = elements ! component_index;
          media_list =
            (if component_index \<in> set (media_elements elements) \<and> tracked component_index
             then [tracking_entry elements asset component_index] else [])
            @ map (tracking_entry elements asset) (media_indices elements tracked component_index)
      in case those (map (build_component_structure fuel elements tracked asset)
                      (structural_children elements tracked component_index)) of
           None \<Rightarrow> None
         | Some children \<Rightarrow>
             Some (Component (Some (comp_id component_index)) (Some (e_label original))
                    (case e_bbox original of (y_min, x_min, y_max, x_max) \<Rightarrow>
                       Some [(''y1'', y_min), (''x1'', x_min), (''y2'', y_max), (''x2'', x_max)])
                    (Some (Description (Some media_list) (Some children) None None))))"

definition root_indices :: "element list \<Rightarrow> nat list" where
  "root_indices elements =
     filter (\<lambda>i. find_parent_index i elements = None) [0 ..< length elements]"

definition convert_json_structure ::
  "element list \<Rightarrow> (nat \<Rightarrow> bool) \<Rightarrow> (nat \<Rightarrow> string) \<Rightarrow> (string \<times> component) list option" where
  "convert_json_structure elements tracked asset =
     those (map (\<lambda>idx. map_option (\<lambda>t. (comp_id idx, t))
                         (build_component_structure (length elements) elements tracked asset idx))
              (root_indices elements))"

definition all_tracked :: "nat \<Rightarrow> bool" where
  "all_tracked m = True"

definition index_asset :: "nat \<Rightarrow> string" where
  "index_asset m = ''assets/image_'' @ string_of_nat m @ ''.png''"

definition node_ids :: "(string \<times> component) list \<Rightarrow> string list" where
  "node_ids forest = concat (map (\<lambda>x. map (\<lambda>c. get_str (c_id c)) (subtree (snd x))) forest)"

definition media_under :: "element list" where
  "media_under =
     [\<lparr>e_bbox = (0, 0, 1000, 1000), e_label = ''div''\<rparr>,
      \<lparr>e_bbox = (100, 100, 500, 500), e_label = ''image''\<rparr>,
      \<lparr>e_bbox = (200, 200, 300, 300), e_label = ''button''\<rparr>]"

definition twins :: "element list" where
  "twins =
     [\<lparr>e_bbox = (0, 0, 100, 100), e_label = ''div''\<rparr>,
      \<lparr>e_bbox = (0, 0, 100, 100), e_label = ''section''\<rparr>,
      \<lparr>e_bbox = (200, 200, 300, 300), e_label = ''button''\<rparr>]"

text \<open>The distance of a component from the top of its parent chain, where the chain ends;
  the links the builder follows from a component to its structural children, and what is
  reachable along them; the ids of the nodes of a built tree.\<close>

fun at_depth :: "element list \<Rightarrow> nat \<Rightarrow> nat \<Rightarrow> bool" where
  "at_depth es 0 k = (find_parent_index k es = None)"
| "at_depth es (Suc d) k =
     (case find_parent_index k es of None \<Rightarrow> False | Some a \<Rightarrow> at_depth es d a)"

definition structural_link :: "element list \<Rightarrow> (nat \<Rightarrow> bool) \<Rightarrow> (nat \<times> nat) set" where
  "structural_link es tracked = {(p, c). c \<in> set (structural_children es tracked p)}"

definition reachable_from :: "element list \<Rightarrow> (nat \<Rightarrow> bool) \<Rightarrow> nat \<Rightarrow> nat set" where
  "reachable_from es tracked k = {i. (k, i) \<in> (structural_link es tracked)\<^sup>*}"

definition ids_of :: "component \<Rightarrow> string set" where
  "ids_of t = set (map (\<lambda>c. get_str (c_id c)) (subtree t))"

section \<open>Properties of the segmentation\<close>

lemma greedy_select_snoc:
  "greedy_select d sel (ps @ [p]) =
     (if far_enough d (greedy_select d sel ps) p
      then greedy_select d sel ps @ [p] else greedy_select d sel ps)"
  by (induction ps arbitrary: sel) simp_all

lemma greedy_select_subset:
  "set (greedy_select d sel ps) \<subseteq> set sel \<union> set ps"
proof (induction ps arbitrary: sel)
  case Nil
  then show ?case by simp
next
  case (Cons p ps)
  show ?case
    using Cons.IH [of "if far_enough d sel p then sel @ [p] else sel"]
    by (auto split: if_splits)
qed

lemma greedy_select_far:
  "sorted_wrt (\<lambda>a b. d \<le> \<bar>a - b\<bar>) sel \<Longrightarrow>
   sorted_wrt (\<lambda>a b. d \<le> \<bar>a - b\<bar>) (greedy_select d sel ps)"
proof (induction ps arbitrary: sel)
  case Nil
  then show ?case by simp
next
  case (Cons p ps)
  have "sorted_wrt (\<lambda>a b. d \<le> \<bar>a - b\<bar>) (if far_enough d sel p then sel @ [p] else sel)"
    using Cons.prems
    by (auto simp: sorted_wrt_append far_enough_def list_all_iff abs_minus_commute)
  then show ?case using Cons.IH by simp
qed

lemma symmetric_insort:
  assumes sym: "\<And>a b. P a b \<Longrightarrow> P b a"
  shows "sorted_wrt P (insort_key f x xs) = ((\<forall>y\<in>set xs. P x y) \<and> sorted_wrt P xs)"
proof (induction xs)
  case Nil
  then show ?case by simp
next
  case (Cons a xs)
  then show ?case
    by (auto simp: set_insort_key dest: sym)
qed

lemma symmetric_sort:
  assumes sym: "\<And>a b. P a b \<Longrightarrow> P b a"
  shows "sorted_wrt P (sort_key f xs) = sorted_wrt P xs"
proof (induction xs)
  case Nil
  then show ?case by simp
next
  case (Cons a xs)
  have "sort_key f (a # xs) = insort_key f a (sort_key f xs)"
    by (simp add: sort_key_def)
  then show ?case
    using Cons symmetric_insort [of P f a "sort_key f xs", OF sym] by auto
qed

lemma far_sort:
  "sorted_wrt (\<lambda>a b. d \<le> \<bar>a - b\<bar>) (sort (xs::int list)) =
     sorted_wrt (\<lambda>a b. d \<le> \<bar>a - b\<bar>) xs"
  by (rule symmetric_sort) (simp add: abs_minus_commute)

lemma far_nth:
  "sorted_wrt (\<lambda>a b. d \<le> \<bar>a - b\<bar>) (xs::int list) \<Longrightarrow> i < j \<Longrightarrow> j < length xs \<Longrightarrow>
     d \<le> \<bar>xs ! j - xs ! i\<bar>"
  by (simp add: sorted_wrt_iff_nth_less abs_minus_commute)

lemma sort_by_confidence_sorted:
  "sorted_wrt (\<lambda>a b. snd b \<le> snd a) (sort_by_confidence cs)"
proof -
  have "sorted (map (\<lambda>c. - snd c) (sort_by_confidence cs))"
    unfolding sort_by_confidence_def by (rule sorted_sort_key)
  then show ?thesis
    by (simp add: sorted_map sorted_wrt_iff_nth_less)
qed

lemma greedy_first:
  "greedy_select d [] (p # ps) = greedy_select d [p] ps"
  by (simp add: far_enough_def)

text \<open>
  Claim C3. The selection of \<open>separation_line_detection\<close>: the candidates are sorted by
  confidence, highest first (a permutation of the input); going through them in that
  order, a candidate is accepted exactly when its position is at least
  \<open>min_line_distance\<close> away from every position accepted before it; with fewer than three
  accepted lines the result is the second pass, which starts from the highest-confidence
  candidate and runs the same greedy acceptance with the distance halved (integer
  division); an empty candidate list gives the empty result. The returned list is sorted
  by position, and any two returned positions are at least the effective distance of the
  pass that produced them apart.
\<close>

theorem separation_selection:
  "(let cs = sort_by_confidence cands;
        first_pass = greedy_select d [] (map fst cs);
        second_pass = greedy_select (d div 2) [fst (hd cs)] (map fst (tl cs));
        eff = (if 3 \<le> length first_pass then d else d div 2);
        res = select_lines d cands
    in mset cs = mset cands
     \<and> sorted_wrt (\<lambda>a b. snd b \<le> snd a) cs
     \<and> (\<forall>k<length cs.
           greedy_select d [] (map fst (take (Suc k) cs)) =
             (if \<forall>p\<in>set (greedy_select d [] (map fst (take k cs))). d \<le> \<bar>fst (cs ! k) - p\<bar>
              then greedy_select d [] (map fst (take k cs)) @ [fst (cs ! k)]
              else greedy_select d [] (map fst (take k cs))))
     \<and> (cands = [] \<longrightarrow> res = [])
     \<and> (cands \<noteq> [] \<and> 3 \<le> length first_pass \<longrightarrow> res = sort first_pass)
     \<and> (cands \<noteq> [] \<and> length first_pass < 3 \<longrightarrow>
           res = sort second_pass \<and> second_pass = greedy_select (d div 2) [] (map fst cs))
     \<and> sorted res
     \<and> (\<forall>i j. i < j \<and> j < length res \<longrightarrow> eff \<le> \<bar>res ! j - res ! i\<bar>))"
proof -
  define cs where "cs = sort_by_confidence cands"
  define first_pass where "first_pass = greedy_select d [] (map fst cs)"
  define second_pass where
    "second_pass = greedy_select (d div 2) [fst (hd cs)] (map fst (tl cs))"
  define eff where "eff = (if 3 \<le> length first_pass then d else d div 2)"
  define res where "res = select_lines d cands"
  have perm: "mset cs = mset cands"
    by (simp add: cs_def sort_by_confidence_def)
  have ord: "sorted_wrt (\<lambda>a b. snd b \<le> snd a) cs"
    unfolding cs_def by (rule sort_by_confidence_sorted)
  have step: "\<forall>k<length cs.
           greedy_select d [] (map fst (take (Suc k) cs)) =
             (if \<forall>p\<in>set (greedy_select d [] (map fst (take k cs))). d \<le> \<bar>fst (cs ! k) - p\<bar>
              then greedy_select d [] (map fst (take k cs)) @ [fst (cs ! k)]
              else greedy_select d [] (map fst (take k cs)))"
  proof (intro allI impI)
    fix k assume k: "k < length cs"
    have "map fst (take (Suc k) cs) = map fst (take k cs) @ [fst (cs ! k)]"
      using k by (simp add: take_Suc_conv_app_nth)
    then show "greedy_select d [] (map fst (take (Suc k) cs)) =
             (if \<forall>p\<in>set (greedy_select d [] (map fst (take k cs))). d \<le> \<bar>fst (cs ! k) - p\<bar>
              then greedy_select d [] (map fst (take k cs)) @ [fst (cs ! k)]
              else greedy_select d [] (map fst (take k cs)))"
      by (simp add: greedy_select_snoc far_enough_def list_all_iff)
  qed
  have empty: "cands = [] \<longrightarrow> res = []"
    by (simp add: res_def select_lines_def)
  have cs_nonempty: "cs \<noteq> []" if "cands \<noteq> []"
    using that perm by auto
  have p1: "cands \<noteq> [] \<and> 3 \<le> length first_pass \<longrightarrow> res = sort first_pass"
    by (simp add: res_def select_lines_def Let_def first_pass_def cs_def)
  have p2: "cands \<noteq> [] \<and> length first_pass < 3 \<longrightarrow>
           res = sort second_pass \<and> second_pass = greedy_select (d div 2) [] (map fst cs)"
  proof (intro impI, elim conjE)
    assume ne: "cands \<noteq> []" and lt: "length first_pass < 3"
    from cs_nonempty [OF ne] obtain c cs' where c: "cs = c # cs'"
      by (cases cs) auto
    have "second_pass = greedy_select (d div 2) [] (map fst cs)"
      by (simp add: second_pass_def c far_enough_def)
    moreover have "res = sort second_pass"
      using ne lt
      by (simp add: res_def select_lines_def Let_def first_pass_def second_pass_def cs_def)
    ultimately show "res = sort second_pass \<and>
        second_pass = greedy_select (d div 2) [] (map fst cs)" by simp
  qed
  have far1: "sorted_wrt (\<lambda>a b. d \<le> \<bar>a - b\<bar>) (sort first_pass)"
    unfolding first_pass_def far_sort by (rule greedy_select_far) simp
  have far2: "sorted_wrt (\<lambda>a b. d div 2 \<le> \<bar>a - b\<bar>) (sort second_pass)"
    unfolding second_pass_def far_sort by (rule greedy_select_far) simp
  have res_cases: "res = [] \<or> (3 \<le> length first_pass \<and> res = sort first_pass)
      \<or> (length first_pass < 3 \<and> res = sort second_pass)"
    using empty p1 p2 by (cases "cands = []"; cases "3 \<le> length first_pass") auto
  have srt: "sorted res"
    using res_cases by auto
  have far: "sorted_wrt (\<lambda>a b. eff \<le> \<bar>a - b\<bar>) res"
    using res_cases far1 far2 by (auto simp: eff_def)
  have pair: "\<forall>i j. i < j \<and> j < length res \<longrightarrow> eff \<le> \<bar>res ! j - res ! i\<bar>"
    using far_nth [OF far] by blast
  show ?thesis
    unfolding Let_def
    using perm ord step empty p1 p2 srt pair
    unfolding cs_def first_pass_def second_pass_def eff_def res_def
    by blast
qed

theorem separation_selection_witness:
  "select_lines 100 [(10, 5), (60, 9)] = sort (greedy_select 50 [60] [10])
   \<and> select_lines 100 [(10, 5), (60, 9)] = [10, 60]
   \<and> sorted (select_lines 100 [(10, 5), (60, 9)])
   \<and> select_lines 100 [(50, 10), (500, 30), (520, 40), (900, 20)] = [50, 520, 900]"
proof -
  have c: "sort_by_confidence [(10, 5), (60, 9)] = [(60, 9), (10, 5)]"
    by code_simp
  have f: "greedy_select 100 [] [60, 10] = [60]"
    by code_simp
  have "select_lines 100 [(10, 5), (60, 9)] = sort (greedy_select 50 [60] [10])
      \<and> sorted (select_lines 100 [(10, 5), (60, 9)])"
    using separation_selection [of "[(10, 5), (60, 9)]" 100]
    by (simp add: Let_def c f)
  moreover have "select_lines 100 [(10, 5), (60, 9)] = [10, 60]"
    by code_simp
  moreover have "select_lines 100 [(50, 10), (500, 30), (520, 40), (900, 20)] = [50, 520, 900]"
    by code_simp
  ultimately show ?thesis by simp
qed

lemma sections_zip:
  "map (\<lambda>i. (bs ! i, bs ! (i + 1))) [0 ..< length bs - 1] = zip bs (tl bs)"
  by (rule nth_equalityI) (auto simp: nth_tl)

lemma covering_zip:
  "sorted_wrt (<) (b # bs) \<Longrightarrow>
   length (filter (in_section y) (zip (b # bs) bs)) =
     (if b \<le> y \<and> y < last (b # bs) then 1 else 0)"
proof (induction bs arbitrary: b)
  case Nil
  then show ?case by simp
next
  case (Cons c bs)
  have IH: "length (filter (in_section y) (zip (c # bs) bs)) =
     (if c \<le> y \<and> y < last (c # bs) then 1 else 0)"
    using Cons.IH [of c] Cons.prems by simp
  have bc: "b < c" using Cons.prems by simp
  have cl: "c \<le> last (c # bs)"
    using Cons.prems by (cases bs) (auto simp: less_imp_le)
  have here: "in_section y (b, c) = (b \<le> y \<and> y < c)"
    by (simp add: in_section_def)
  show ?case
    using IH bc cl by (auto simp: here)
qed

lemma candidate_at_range:
  assumes "candidate_at img vt dt pt ws i = Some cs" and "ws + 1 \<le> i" and "i < length img - ws - 1"
  shows "\<forall>c\<in>set cs. 0 < fst c \<and> fst c < int (length img)"
  using assms
  by (auto simp: candidate_at_def Let_def split: if_splits)

lemma collect_candidates_range:
  assumes "collect_candidates img vt dt pt ws is = Some cs"
    and "\<forall>i\<in>set is. ws + 1 \<le> i \<and> i < length img - ws - 1"
  shows "\<forall>c\<in>set cs. 0 < fst c \<and> fst c < int (length img)"
  using assms
proof (induction "is" arbitrary: cs)
  case Nil
  then show ?case by simp
next
  case (Cons i "is")
  from Cons.prems(1) obtain c cs' where
    c: "candidate_at img vt dt pt ws i = Some c"
    and cs': "collect_candidates img vt dt pt ws is = Some cs'"
    and cs: "cs = c @ cs'"
    by (auto split: option.splits)
  have "\<forall>x\<in>set c. 0 < fst x \<and> fst x < int (length img)"
    using candidate_at_range [OF c] Cons.prems(2) by simp
  moreover have "\<forall>x\<in>set cs'. 0 < fst x \<and> fst x < int (length img)"
    using Cons.IH [OF cs'] Cons.prems(2) by simp
  ultimately show ?case using cs by auto
qed

lemma collect_candidates_total:
  assumes "0 < ws" and "\<forall>i\<in>set is. ws + 1 \<le> i \<and> i < length img - ws - 1"
  shows "\<exists>cs. collect_candidates img vt dt pt ws is = Some cs"
  using assms(2)
proof (induction "is")
  case Nil
  then show ?case by simp
next
  case (Cons i "is")
  have "take ws (drop (i - ws) img) \<noteq> []"
    using Cons.prems assms(1) by auto
  then have "\<exists>c. candidate_at img vt dt pt ws i = Some c"
    by (simp add: candidate_at_def Let_def)
  then obtain c where "candidate_at img vt dt pt ws i = Some c" ..
  moreover obtain cs where "collect_candidates img vt dt pt ws is = Some cs"
    using Cons by auto
  ultimately show ?case by simp
qed

lemma select_lines_subset:
  "set (select_lines d cands) \<subseteq> fst ` set cands"
proof (cases "cands = []")
  case True
  then show ?thesis by (simp add: select_lines_def)
next
  case False
  define cs where "cs = sort_by_confidence cands"
  have s: "set cs = set cands" by (simp add: cs_def sort_by_confidence_def)
  then have ne: "cs \<noteq> []" using False by auto
  have a: "set (greedy_select d [] (map fst cs)) \<subseteq> fst ` set cands"
    using greedy_select_subset [of d "[]" "map fst cs"] s by auto
  have "fst (hd cs) \<in> fst ` set cands" "set (tl cs) \<subseteq> set cands"
    using ne s by (cases cs; auto)+
  then have "set [fst (hd cs)] \<union> set (map fst (tl cs)) \<subseteq> fst ` set cands"
    by auto
  then have b: "set (greedy_select (d div 2) [fst (hd cs)] (map fst (tl cs))) \<subseteq> fst ` set cands"
    using greedy_select_subset [of "d div 2" "[fst (hd cs)]" "map fst (tl cs)"] by blast
  show ?thesis
    using a b False by (auto simp: select_lines_def Let_def cs_def)
qed

lemma separation_line_detection_range:
  assumes "separation_line_detection img vt dt pt ws mld = Some ls"
  shows "\<forall>l\<in>set ls. 0 < l \<and> l < int (length img)"
proof -
  from assms obtain cands where
    c: "candidate_lines img vt dt pt ws = Some cands"
    and ls: "ls = select_lines (auto_distance 3 (int (length img)) mld) cands"
    by (auto simp: separation_line_detection_def split: option.splits)
  have "\<forall>c\<in>set cands. 0 < fst c \<and> fst c < int (length img)"
    using collect_candidates_range [OF c [unfolded candidate_lines_def]] by simp
  then show ?thesis
    using select_lines_subset [of "auto_distance 3 (int (length img)) mld" cands] ls by auto
qed

lemma separation_line_detection_total:
  "0 < ws \<Longrightarrow> \<exists>ls. separation_line_detection img vt dt pt ws mld = Some ls"
  using collect_candidates_total [of ws "[ws + 1 ..< length img - ws - 1]" img vt dt pt]
  by (auto simp: separation_line_detection_def candidate_lines_def)

lemma fuse_lines_subset: "set (fuse_lines ct d cands) \<subseteq> fst ` set cands"
proof -
  have "set (map fst (filter (\<lambda>c. \<not> snd c < ct) (sort_by_confidence cands))) \<subseteq> fst ` set cands"
    by (auto simp: sort_by_confidence_def)
  moreover have "set (fuse_lines ct d cands) =
      set (greedy_select d [] (map fst (filter (\<lambda>c. \<not> snd c < ct) (sort_by_confidence cands))))"
    by (simp add: fuse_lines_def)
  ultimately show ?thesis
    using greedy_select_subset [of d "[]"
        "map fst (filter (\<lambda>c. \<not> snd c < ct) (sort_by_confidence cands))"]
    by auto
qed

lemma fuse_lines_far: "sorted_wrt (\<lambda>a b. d \<le> \<bar>a - b\<bar>) (fuse_lines ct d cands)"
  unfolding fuse_lines_def far_sort by (rule greedy_select_far) simp

lemma fuse_lines_sorted: "sorted (fuse_lines ct d cands)"
  by (simp add: fuse_lines_def)

lemma far_sorted_strict:
  assumes "sorted (xs::int list)" and "sorted_wrt (\<lambda>a b. d \<le> \<bar>a - b\<bar>) xs" and "0 < d"
  shows "sorted_wrt (<) xs"
  unfolding sorted_wrt_iff_nth_less
proof (intro allI impI)
  fix i j assume ij: "i < j" "j < length xs"
  have "xs ! i \<le> xs ! j"
    using assms(1) ij by (simp add: sorted_iff_nth_mono)
  moreover have "d \<le> \<bar>xs ! i - xs ! j\<bar>"
    using assms(2) ij by (simp add: sorted_wrt_iff_nth_less)
  ultimately show "xs ! i < xs ! j"
    using assms(3) by linarith
qed

lemma all_candidates_positions:
  "fst ` set (all_candidates d lines_1 blank_regions color_regions)
     = set lines_1 \<union> set blank_regions \<union> set color_regions"
  by (simp add: all_candidates_def blank_confidence_def color_confidence_def image_Un image_image Un_assoc)

lemma boundaries_strict:
  assumes "sorted_wrt (<) lines" and "\<forall>l\<in>set lines. 0 < l \<and> l < h" and "0 < h"
  shows "sorted_wrt (<) (all_boundaries h lines)"
  using assms by (auto simp: all_boundaries_def sorted_wrt_append)

lemma strict_sections:
  assumes "sorted_wrt (<) (all_boundaries h lines)"
  shows "(\<forall>y. 0 \<le> y \<and> y < h \<longrightarrow> sections_covering y (get_content_sections h lines) = 1)
       \<and> (\<forall>y. y < 0 \<or> h \<le> y \<longrightarrow> sections_covering y (get_content_sections h lines) = 0)
       \<and> (\<forall>s\<in>set (get_content_sections h lines). fst s < snd s)"
proof -
  define bs where "bs = lines @ [h]"
  have ab: "all_boundaries h lines = 0 # bs"
    by (simp add: all_boundaries_def bs_def)
  have secs: "get_content_sections h lines = zip (0 # bs) bs"
    unfolding get_content_sections_def Let_def sections_zip ab by simp
  have st: "sorted_wrt (<) (0 # bs)" using assms ab by simp
  have l: "last (0 # bs) = h" by (simp add: bs_def)
  have cov: "sections_covering y (get_content_sections h lines) = (if 0 \<le> y \<and> y < h then 1 else 0)"
    for y
    unfolding sections_covering_def secs using covering_zip [OF st, of y] l by simp
  have ne: "\<forall>s\<in>set (zip (0 # bs) bs). fst s < snd s"
  proof
    fix s assume "s \<in> set (zip (0 # bs) bs)"
    then obtain i where i: "i < length bs" "s = ((0 # bs) ! i, bs ! i)"
      by (auto simp: set_zip)
    have "\<forall>a b. a < b \<longrightarrow> b < length (0 # bs) \<longrightarrow> (0 # bs) ! a < (0 # bs) ! b"
      using st unfolding sorted_wrt_iff_nth_less by blast
    then have "(0 # bs) ! i < (0 # bs) ! Suc i"
      using i(1) by (metis length_Cons lessI Suc_less_eq)
    then show "fst s < snd s" using i by simp
  qed
  show ?thesis using cov ne secs by auto
qed

text \<open>
  Claim C1, as amended. When the image has at least one row, the effective minimum
  distance is positive and every position contributed by the two external detectors lies
  strictly between 0 and the image height, then \<open>enhanced_image_segmentation\<close> returns for
  every positive window size, and whenever it returns the boundary list
  \<open>0, line_1, ..., line_k, img_height\<close> is strictly increasing, the sections are its
  adjacent pairs in order, every pixel row of \<open>[0, img_height)\<close> lies in exactly one
  section, no other row lies in any, and no section is empty.
\<close>

theorem segmenter_sections_partition:
  assumes "img \<noteq> []"
    and "0 < auto_distance 5 (int (length img)) min_line_distance"
    and "\<forall>l\<in>set blank_regions \<union> set color_regions. 0 < l \<and> l < int (length img)"
  shows "(0 < window_size \<longrightarrow>
            enhanced_image_segmentation img confidence_threshold min_line_distance
              blank_var_thr blank_diff_thr blank_portion_thr window_size
              blank_regions color_regions \<noteq> None)
       \<and> (\<forall>lines sections.
            enhanced_image_segmentation img confidence_threshold min_line_distance
              blank_var_thr blank_diff_thr blank_portion_thr window_size
              blank_regions color_regions = Some (lines, sections) \<longrightarrow>
            sorted_wrt (<) (all_boundaries (int (length img)) lines)
          \<and> sections = zip (all_boundaries (int (length img)) lines)
                            (tl (all_boundaries (int (length img)) lines))
          \<and> (\<forall>y. 0 \<le> y \<and> y < int (length img) \<longrightarrow> sections_covering y sections = 1)
          \<and> (\<forall>y. y < 0 \<or> int (length img) \<le> y \<longrightarrow> sections_covering y sections = 0)
          \<and> (\<forall>s\<in>set sections. fst s < snd s))"
proof -
  have total: "0 < window_size \<longrightarrow>
            enhanced_image_segmentation img confidence_threshold min_line_distance
              blank_var_thr blank_diff_thr blank_portion_thr window_size
              blank_regions color_regions \<noteq> None"
  proof
    assume "0 < window_size"
    then obtain ls where
      "separation_line_detection img blank_var_thr blank_diff_thr blank_portion_thr window_size
         (auto_distance 5 (int (length img)) min_line_distance) = Some ls"
      using separation_line_detection_total by blast
    then show "enhanced_image_segmentation img confidence_threshold min_line_distance
                blank_var_thr blank_diff_thr blank_portion_thr window_size
                blank_regions color_regions \<noteq> None"
      by (simp add: enhanced_image_segmentation_def Let_def)
  qed
  have part: "sorted_wrt (<) (all_boundaries (int (length img)) lines)
          \<and> sections = zip (all_boundaries (int (length img)) lines)
                            (tl (all_boundaries (int (length img)) lines))
          \<and> (\<forall>y. 0 \<le> y \<and> y < int (length img) \<longrightarrow> sections_covering y sections = 1)
          \<and> (\<forall>y. y < 0 \<or> int (length img) \<le> y \<longrightarrow> sections_covering y sections = 0)
          \<and> (\<forall>s\<in>set sections. fst s < snd s)"
    if run: "enhanced_image_segmentation img confidence_threshold min_line_distance
              blank_var_thr blank_diff_thr blank_portion_thr window_size
              blank_regions color_regions = Some (lines, sections)"
    for lines sections
  proof -
    define h where "h = int (length img)"
    define d where "d = auto_distance 5 h min_line_distance"
    from run obtain lines_1 where
      l1: "separation_line_detection img blank_var_thr blank_diff_thr blank_portion_thr
             window_size d = Some lines_1"
      and lines: "lines = fuse_lines confidence_threshold d
                    (all_candidates d lines_1 blank_regions color_regions)"
      and secs: "sections = get_content_sections h lines"
      by (auto simp: enhanced_image_segmentation_def Let_def h_def d_def split: option.splits)
    have r1: "\<forall>l\<in>set lines_1. 0 < l \<and> l < h"
      using separation_line_detection_range [OF l1] by (simp add: h_def)
    have "set lines \<subseteq> set lines_1 \<union> set blank_regions \<union> set color_regions"
      using fuse_lines_subset [of confidence_threshold d
          "all_candidates d lines_1 blank_regions color_regions"]
      unfolding lines all_candidates_positions .
    then have range: "\<forall>l\<in>set lines. 0 < l \<and> l < h"
      using r1 assms(3) unfolding h_def by blast
    have "0 < d" using assms(2) by (simp add: d_def h_def)
    then have strict: "sorted_wrt (<) lines"
      unfolding lines using far_sorted_strict [OF fuse_lines_sorted fuse_lines_far] by blast
    have hpos: "0 < h" using assms(1) by (simp add: h_def)
    have bs: "sorted_wrt (<) (all_boundaries h lines)"
      by (rule boundaries_strict [OF strict range hpos])
    have z: "sections = zip (all_boundaries h lines) (tl (all_boundaries h lines))"
      by (simp only: secs get_content_sections_def Let_def sections_zip)
    note rest = strict_sections [OF bs, folded secs]
    show ?thesis
      using bs z rest unfolding h_def by blast
  qed
  show ?thesis
    using total part by blast
qed

theorem segmenter_sections_partition_witness:
  "enhanced_image_segmentation (replicate 10 [0]) (6 / 10) 5 80 40 (1 / 2) 10 [3] [8]
      = Some ([3, 8], [(0, 3), (3, 8), (8, 10)])
   \<and> sorted_wrt (<) (all_boundaries 10 [3, 8])
   \<and> sections_covering 4 [(0, 3), (3, 8), (8, 10)] = 1"
proof -
  have e: "enhanced_image_segmentation (replicate 10 [0]) (6 / 10) 5 80 40 (1 / 2) 10 [3] [8]
      = Some ([3, 8], [(0, 3), (3, 8), (8, 10)])"
    by code_simp
  have h1: "replicate 10 [0::8 word] \<noteq> []" by simp
  have h2: "0 < auto_distance 5 (int (length (replicate 10 [0::8 word]))) 5"
    by (simp add: auto_distance_def)
  have h3: "\<forall>l\<in>set [3] \<union> set [8]. 0 < l \<and> l < int (length (replicate 10 [0::8 word]))"
    by simp
  have "sorted_wrt (<) (all_boundaries 10 [3, 8])
      \<and> sections_covering 4 [(0, 3), (3, 8), (8, 10)] = 1"
    using segmenter_sections_partition [OF h1 h2 h3, where confidence_threshold = "6 / 10"
        and blank_var_thr = 80 and blank_diff_thr = 40 and blank_portion_thr = "1 / 2"
        and window_size = 10, THEN conjunct2, rule_format, OF e]
    by auto
  then show ?thesis using e by simp
qed

text \<open>
  Claim C1 as stated fails: an external detector that reports row 0 gives the boundary
  list \<open>0, 0, 10\<close> on an image of height 10, and the empty section \<open>(0, 0)\<close>. And with
  \<open>min_line_distance = 0\<close> on that image the distance becomes \<open>int(10 * 0.05) = 0\<close>, so
  the same row reported by both detectors is accepted twice: boundaries \<open>0, 5, 5, 10\<close>.
\<close>

theorem segmenter_boundaries_counterexample:
  "enhanced_image_segmentation (replicate 10 [0]) (6 / 10) 5 80 40 (1 / 2) 10 [0] []
      = Some ([0], [(0, 0), (0, 10)])
   \<and> \<not> sorted_wrt (<) (all_boundaries 10 [0])
   \<and> enhanced_image_segmentation (replicate 10 [0]) (6 / 10) 0 80 40 (1 / 2) 10 [5] [5]
      = Some ([5, 5], [(0, 5), (5, 5), (5, 10)])
   \<and> \<not> sorted_wrt (<) (all_boundaries 10 [5, 5])"
  by code_simp

text \<open>
  Claim C4 on the code. The rows are \<open>uint8\<close>, so \<open>upper - window[0]\<close> wraps and
  \<open>np.abs\<close> changes nothing: for the pixels 10 (outside) and 20 (window edge) the code's
  difference is 246 where the absolute difference is 10. With \<open>diff_thr = 30\<close> the code
  flags a border that the absolute difference does not, and the five-row image below
  yields the candidate \<open>(1, 246)\<close>.
\<close>

theorem border_difference_wraps:
  "row_diff [10] [20] = [246]
   \<and> abs_row_diff [10] [20] = [10]
   \<and> is_border 30 (1 / 2) (row_diff [10] [20])
   \<and> \<not> spec_is_border 30 (1 / 2) (abs_row_diff [10] [20])
   \<and> candidate_lines [[10], [20], [20], [20], [20]] 100 30 (1 / 2) 1 = Some [(1, 246)]"
  by code_simp

theorem border_difference_wraps_lines:
  "separation_line_detection [[10], [20], [20], [20], [20]] 100 30 (1 / 2) 1 100 = Some [1]"
  using border_difference_wraps
  by (simp add: separation_line_detection_def select_lines_def sort_by_confidence_def
      auto_distance_def far_enough_def)

section \<open>Properties of the layout synthesizer\<close>

lemma overlap_loop_found:
  assumes "s \<in> set siblings" and "c_id s \<noteq> c_id component"
    and "c_coordinates s = Some sc" and "boxes_overlap cc sc"
  shows "overlap_loop component cc siblings"
  using assms by (induction siblings) (auto split: option.splits)

lemma overlap_loop_only_self:
  "overlap_loop component cc [component] = False"
  by (simp split: option.splits)

text \<open>
  Claim C7. In \<open>_determine_positioning\<close>: a component with coordinates whose box strictly
  overlaps, on both the x and the y range, the box of a sibling (another child of the
  parent, with a different id) is placed \<open>absolute\<close>; and a component that is the only
  child of a parent of type \<open>div\<close>, its own type outside the floating set, is placed
  \<open>relative\<close>.
\<close>

theorem positioning_decision:
  "(\<forall>s sc cc.
      c_coordinates component = Some cc \<and> cc \<noteq> []
      \<and> s \<in> set (children_of parent) \<and> c_id s \<noteq> c_id component
      \<and> c_coordinates s = Some sc
      \<and> dict_get cc ''x1'' < dict_get sc ''x2'' \<and> dict_get sc ''x1'' < dict_get cc ''x2''
      \<and> dict_get cc ''y1'' < dict_get sc ''y2'' \<and> dict_get sc ''y1'' < dict_get cc ''y2''
      \<longrightarrow> determine_positioning component parent = ''absolute'')
   \<and> (children_of parent = [component]
      \<and> py_lower (get_str (c_type component)) \<notin> set absolute_components
      \<and> py_lower (get_str (c_type parent)) = ''div''
      \<longrightarrow> determine_positioning component parent = ''relative'')"
proof (intro conjI allI impI)
  fix s sc cc
  assume a: "c_coordinates component = Some cc \<and> cc \<noteq> []
      \<and> s \<in> set (children_of parent) \<and> c_id s \<noteq> c_id component
      \<and> c_coordinates s = Some sc
      \<and> dict_get cc ''x1'' < dict_get sc ''x2'' \<and> dict_get sc ''x1'' < dict_get cc ''x2''
      \<and> dict_get cc ''y1'' < dict_get sc ''y2'' \<and> dict_get sc ''y1'' < dict_get cc ''y2''"
  then have "boxes_overlap cc sc"
    by (simp add: boxes_overlap_def)
  then have "overlap_loop component cc (children_of parent)"
    using a overlap_loop_found by blast
  then have "has_overlap_with_siblings component parent"
    using a by (simp add: has_overlap_with_siblings_def)
  then show "determine_positioning component parent = ''absolute''"
    by (simp add: determine_positioning_def)
next
  assume a: "children_of parent = [component]
      \<and> py_lower (get_str (c_type component)) \<notin> set absolute_components
      \<and> py_lower (get_str (c_type parent)) = ''div''"
  have "\<not> has_overlap_with_siblings component parent"
    using a by (simp add: has_overlap_with_siblings_def overlap_loop_only_self split: option.splits)
  moreover have "''div'' \<in> set absolute_container_parents"
    by (simp add: absolute_container_parents_def)
  ultimately show "determine_positioning component parent = ''relative''"
    using a by (simp add: determine_positioning_def Let_def)
qed

theorem positioning_decision_witness:
  "determine_positioning box_a (div_of [box_a, box_b]) = ''absolute''
   \<and> determine_positioning box_a (div_of [box_a]) = ''relative''"
proof -
  have 1: "determine_positioning box_a (div_of [box_a, box_b]) = ''absolute''"
    using positioning_decision [of box_a "div_of [box_a, box_b]", THEN conjunct1, rule_format,
        of "[(''y1'', 0), (''x1'', 0), (''y2'', 100), (''x2'', 100)]" box_b
           "[(''y1'', 50), (''x1'', 50), (''y2'', 150), (''x2'', 150)]"]
    by (simp add: box_a_def box_b_def div_of_def children_of_def dict_get_def)
  have 2: "determine_positioning box_a (div_of [box_a]) = ''relative''"
    using positioning_decision [of box_a "div_of [box_a]", THEN conjunct2]
    by (simp add: box_a_def div_of_def children_of_def py_lower_def lower_char_def get_str_def
        absolute_components_def)
  show ?thesis using 1 2 by simp
qed

lemma those_map_Some:
  "those (map f xs) = Some ys \<Longrightarrow>
     length ys = length xs \<and> (\<forall>i<length xs. f (xs ! i) = Some (ys ! i))"
proof (induction xs arbitrary: ys)
  case Nil
  then show ?case by simp
next
  case (Cons x xs)
  from Cons.prems obtain y ys' where y: "f x = Some y" and ys': "those (map f xs) = Some ys'"
    and ys: "ys = y # ys'"
    by (auto split: option.splits)
  show ?case
    using Cons.IH [OF ys'] y ys by (auto simp: nth_Cons split: nat.splits)
qed

lemma those_map_total:
  "(\<forall>x\<in>set xs. f x \<noteq> None) \<Longrightarrow> those (map f xs) \<noteq> None"
  by (induction xs) (auto split: option.splits)












section \<open>Properties of the colour palette fallback\<close>

lemma remdups_constant:
  "xs \<noteq> [] \<Longrightarrow> \<forall>x\<in>set xs. x = a \<Longrightarrow> remdups xs = [a]"
proof (induction xs)
  case Nil
  then show ?case by simp
next
  case (Cons x xs)
  then show ?case by (cases xs) auto
qed

lemma white_hex: "hex_color (255, 255, 255) = ''#ffffff''"
  by (simp add: hex_color_def hex2_def hex_digit_def)

text \<open>
  Claim C8. On an all-white RGB crop, for every non-negative \<open>max_colors\<close> (the default
  is 5), \<open>_fallback_extract_colors\<close> returns exactly \<open>["#ffffff"]\<close>; and on a crop of at
  most one pixel it returns \<open>["#ffffff"]\<close> whatever the pixel and \<open>max_colors\<close> are.
\<close>

theorem fallback_white:
  "(0 \<le> max_colors \<and> (\<forall>p\<in>set (concat crop). p = (255, 255, 255))
      \<longrightarrow> fallback_extract_colors crop max_colors = [''#ffffff''])
   \<and> (length (concat crop) \<le> 1
      \<longrightarrow> fallback_extract_colors crop max_colors = [''#ffffff''])"
proof (intro conjI impI)
  assume "length (concat crop) \<le> 1"
  then show "fallback_extract_colors crop max_colors = [''#ffffff'']"
    by (simp add: fallback_extract_colors_def)
next
  assume a: "0 \<le> max_colors \<and> (\<forall>p\<in>set (concat crop). p = (255, 255, 255))"
  show "fallback_extract_colors crop max_colors = [''#ffffff'']"
  proof (cases "length (concat crop) \<le> 1")
    case True
    then show ?thesis by (simp add: fallback_extract_colors_def)
  next
    case False
    then have "length (concat crop) \<noteq> 0" by linarith
    then have "concat crop \<noteq> []" by (simp del: length_concat concat_eq_Nil_conv)
    then have u: "np_unique (concat crop) = [(255, 255, 255)]"
      using a remdups_constant [of "concat crop" "(255, 255, 255)"]
      by (simp add: np_unique_def)
    show ?thesis
    proof (cases "max_colors = 0")
      case True
      then show ?thesis using False u by (simp add: fallback_extract_colors_def Let_def)
    next
      case nz: False
      then have "1 \<le> max_colors" using a by simp
      then have "py_take max_colors [(255, 255, 255) :: pixel] = [(255, 255, 255)]"
        by (cases "nat max_colors") (auto simp: py_take_def)
      then show ?thesis
        using False u \<open>1 \<le> max_colors\<close>
        by (simp add: fallback_extract_colors_def Let_def white_hex)
    qed
  qed
qed

theorem fallback_white_witness:
  "fallback_extract_colors [[(255, 255, 255), (255, 255, 255)], [(255, 255, 255), (255, 255, 255)]] 5
      = [''#ffffff'']
   \<and> fallback_extract_colors [[(12, 34, 56)]] 5 = [''#ffffff'']"
proof -
  have "fallback_extract_colors [[(255, 255, 255), (255, 255, 255)], [(255, 255, 255), (255, 255, 255)]] 5
      = [''#ffffff'']"
    using fallback_white [of 5 "[[(255, 255, 255), (255, 255, 255)], [(255, 255, 255), (255, 255, 255)]]",
        THEN conjunct1]
    by simp
  moreover have "fallback_extract_colors [[(12, 34, 56)]] 5 = [''#ffffff'']"
    using fallback_white [of 5 "[[(12, 34, 56)]]", THEN conjunct2] by simp
  ultimately show ?thesis by simp
qed

section \<open>Properties of the nested-element filter\<close>

lemma should_keep_True_iff:
  "should_keep c ps = Some True \<longleftrightarrow>
     (\<forall>p\<in>set ps. c = p \<or> nested_test (box_percent c) (box_percent p) = Some False)"
  by (induction ps) (auto split: option.splits bool.splits)

lemma should_keep_mono:
  "should_keep c ps = Some True \<Longrightarrow> set qs \<subseteq> set ps \<Longrightarrow> should_keep c qs = Some True"
  unfolding should_keep_True_iff by blast

lemma filter_loop_result:
  "filter_loop ps cs = Some out \<Longrightarrow> out = filter (keepable ps) cs"
proof (induction cs arbitrary: out)
  case Nil
  then show ?case by simp
next
  case (Cons c cs)
  then show ?case
    by (auto simp: keepable_def split: if_splits option.splits)
qed

lemma filter_loop_all_kept:
  "\<forall>c\<in>set cs. keepable ps c \<Longrightarrow> filter_loop ps cs = Some cs"
  by (induction cs) (auto simp: keepable_def)

lemma filter_loop_total:
  "\<forall>c\<in>set cs. should_keep c ps \<noteq> None \<Longrightarrow> filter_loop ps cs \<noteq> None"
  by (induction cs) (auto split: option.splits)

lemma nested_test_total:
  assumes "4 \<le> length a" and "4 \<le> length b"
  shows "nested_test a b \<noteq> None"
proof -
  have a: "idx a 0 = Some (a ! 0)" "idx a 1 = Some (a ! 1)" "idx a 2 = Some (a ! 2)"
    "idx a 3 = Some (a ! 3)"
    using assms(1) by (auto simp: idx_def)
  have b: "idx b 0 = Some (b ! 0)" "idx b 1 = Some (b ! 1)" "idx b 2 = Some (b ! 2)"
    "idx b 3 = Some (b ! 3)"
    using assms(2) by (auto simp: idx_def)
  show ?thesis
    unfolding nested_test_def a b by auto
qed

lemma should_keep_total:
  "4 \<le> length (box_percent c) \<Longrightarrow> \<forall>p\<in>set ps. 4 \<le> length (box_percent p) \<Longrightarrow>
     should_keep c ps \<noteq> None"
proof (induction ps)
  case Nil
  then show ?case by simp
next
  case (Cons p ps)
  then show ?case
    using nested_test_total [of "box_percent c" "box_percent p"]
    by (auto split: option.splits bool.splits)
qed

text \<open>
  Claim C6. \<open>filter_nested_elements\<close> is idempotent: whenever it returns a list, applying
  it to that list returns the same list; and it returns on every input whose boxes have
  at least four entries.
\<close>

theorem filter_nested_idempotent:
  "(\<forall>out. filter_nested_elements components = Some out \<longrightarrow>
           filter_nested_elements out = Some out)
   \<and> ((\<forall>c\<in>set components. 4 \<le> length (box_percent c)) \<longrightarrow>
         filter_nested_elements components \<noteq> None)"
proof (intro conjI allI impI)
  fix out
  assume run: "filter_nested_elements components = Some out"
  define ps where "ps = filter (\<lambda>c. is_parent_label (py_lower (label c))) components"
  define qs where "qs = filter (\<lambda>c. is_parent_label (py_lower (label c))) out"
  have out: "out = filter (keepable ps) components"
    using run filter_loop_result unfolding filter_nested_elements_def ps_def by blast
  then have sub: "set qs \<subseteq> set ps"
    by (auto simp: qs_def ps_def)
  have "\<forall>c\<in>set out. keepable ps c"
    using out by simp
  then have "\<forall>c\<in>set out. keepable qs c"
    using sub should_keep_mono unfolding keepable_def by blast
  then show "filter_nested_elements out = Some out"
    unfolding filter_nested_elements_def qs_def [symmetric] by (rule filter_loop_all_kept)
next
  assume wf: "\<forall>c\<in>set components. 4 \<le> length (box_percent c)"
  have "\<forall>c\<in>set components.
          should_keep c (filter (\<lambda>c. is_parent_label (py_lower (label c))) components) \<noteq> None"
    using wf should_keep_total by (metis (no_types, lifting) filter_is_subset subsetD)
  then show "filter_nested_elements components \<noteq> None"
    unfolding filter_nested_elements_def by (rule filter_loop_total)
qed

theorem filter_nested_idempotent_witness:
  "filter_nested_elements
     [\<lparr>label = ''div'', box_percent = [0, 0, 50, 50]\<rparr>,
      \<lparr>label = ''button'', box_percent = [10, 10, 20, 20]\<rparr>,
      \<lparr>label = ''Image_1'', box_percent = [10, 10, 20, 20]\<rparr>,
      \<lparr>label = ''text'', box_percent = [60, 60, 70, 70]\<rparr>,
      \<lparr>label = ''header_2'', box_percent = [0, 0, 50, 50]\<rparr>,
      \<lparr>label = ''div'', box_percent = [1, 1, 49, 49]\<rparr>]
    = Some [\<lparr>label = ''div'', box_percent = [0, 0, 50, 50]\<rparr>,
            \<lparr>label = ''Image_1'', box_percent = [10, 10, 20, 20]\<rparr>,
            \<lparr>label = ''text'', box_percent = [60, 60, 70, 70]\<rparr>,
            \<lparr>label = ''header_2'', box_percent = [0, 0, 50, 50]\<rparr>]
   \<and> filter_nested_elements
        [\<lparr>label = ''div'', box_percent = [0, 0, 50, 50]\<rparr>,
         \<lparr>label = ''Image_1'', box_percent = [10, 10, 20, 20]\<rparr>,
         \<lparr>label = ''text'', box_percent = [60, 60, 70, 70]\<rparr>,
         \<lparr>label = ''header_2'', box_percent = [0, 0, 50, 50]\<rparr>]
      = Some [\<lparr>label = ''div'', box_percent = [0, 0, 50, 50]\<rparr>,
              \<lparr>label = ''Image_1'', box_percent = [10, 10, 20, 20]\<rparr>,
              \<lparr>label = ''text'', box_percent = [60, 60, 70, 70]\<rparr>,
              \<lparr>label = ''header_2'', box_percent = [0, 0, 50, 50]\<rparr>]"
proof -
  have e: "filter_nested_elements
     [\<lparr>label = ''div'', box_percent = [0, 0, 50, 50]\<rparr>,
      \<lparr>label = ''button'', box_percent = [10, 10, 20, 20]\<rparr>,
      \<lparr>label = ''Image_1'', box_percent = [10, 10, 20, 20]\<rparr>,
      \<lparr>label = ''text'', box_percent = [60, 60, 70, 70]\<rparr>,
      \<lparr>label = ''header_2'', box_percent = [0, 0, 50, 50]\<rparr>,
      \<lparr>label = ''div'', box_percent = [1, 1, 49, 49]\<rparr>]
    = Some [\<lparr>label = ''div'', box_percent = [0, 0, 50, 50]\<rparr>,
            \<lparr>label = ''Image_1'', box_percent = [10, 10, 20, 20]\<rparr>,
            \<lparr>label = ''text'', box_percent = [60, 60, 70, 70]\<rparr>,
            \<lparr>label = ''header_2'', box_percent = [0, 0, 50, 50]\<rparr>]"
    by code_simp
  show ?thesis
    using filter_nested_idempotent [THEN conjunct1, rule_format, OF e] e by simp
qed

section \<open>Properties of the response parser\<close>

text \<open>
  Claim C5 on the code. The direct parse of the trailing-comma text fails and the second
  tier runs, but its decimal repair rewrites \<open>1,2,3,4\<close> to \<open>1.2,3.4\<close>: the repaired text
  parses to one object whose \<open>box_2d\<close> has two entries, which the standardisation drops.
  The function returns the empty list, not the one-element list, whatever \<open>re.findall\<close>
  would give.
\<close>

theorem trailing_comma_not_recovered:
  "json_loads trailing_comma_response = None
   \<and> re_sub_decimal (replace '',]'' '']''
        (replace [CHR '','', CHR 0x0A, CHR '']''] [CHR 0x0A, CHR '']''] trailing_comma_response))
      = repaired_response
   \<and> json_loads repaired_response
      = Some (JArr [JObj [(''label'', JStr ''a''), (''box_2d'', JArr [JNum (6 / 5), JNum (17 / 5)])]])
   \<and> parse_gemini_response json_loads findall trailing_comma_response = Some []"
proof -
  have 1: "json_loads trailing_comma_response = None"
    by code_simp
  have 2: "re_sub_decimal (replace '',]'' '']''
        (replace [CHR '','', CHR 0x0A, CHR '']''] [CHR 0x0A, CHR '']''] trailing_comma_response))
      = repaired_response"
    by code_simp
  have 3: "json_loads repaired_response
      = Some (JArr [JObj [(''label'', JStr ''a''), (''box_2d'', JArr [JNum (6 / 5), JNum (17 / 5)])]])"
    by code_simp
  have 4: "strip_fences (strip trailing_comma_response) = trailing_comma_response"
    by code_simp
  have 5: "standardize (JArr [JObj [(''label'', JStr ''a''),
              (''box_2d'', JArr [JNum (6 / 5), JNum (17 / 5)])]]) = Some []"
    by code_simp
  have 6: "trailing_comma_response \<noteq> []"
    by code_simp
  have "parse_gemini_response json_loads findall trailing_comma_response = Some []"
    unfolding parse_gemini_response_def Let_def 4 2 using 1 3 5 6 by simp
  then show ?thesis using 1 2 3 by simp
qed

theorem trailing_comma_not_recovered_instance:
  "parse_gemini_response json_loads no_matches trailing_comma_response = Some []"
  using trailing_comma_not_recovered [of no_matches] by simp










section \<open>Properties of the hierarchy construction\<close>

lemma min_by_mem: "min_by f best xs \<in> set (best # xs)"
  by (induction xs arbitrary: best) auto

lemma find_parent_index_Some:
  assumes "find_parent_index i es = Some p"
  shows "p < length es \<and> p \<noteq> i \<and> is_contained_within (e_bbox (es ! i)) (e_bbox (es ! p))"
proof -
  from assms obtain q qs where pp: "potential_parents i es = q # qs"
    and p: "p = min_by (\<lambda>k. calculate_area (e_bbox (es ! k))) q qs"
    by (auto simp: find_parent_index_def split: list.splits)
  have "p \<in> set (potential_parents i es)"
    unfolding pp p by (rule min_by_mem)
  then show ?thesis
    by (auto simp: potential_parents_def)
qed

lemma find_parent_index_single:
  assumes "potential_parents i es = [j]"
  shows "find_parent_index i es = Some j"
  using assms by (simp add: find_parent_index_def)

lemma at_depth_unique: "at_depth es d k \<Longrightarrow> at_depth es d' k \<Longrightarrow> d = d'"
proof (induction d arbitrary: k d')
  case 0
  then show ?case by (cases d') auto
next
  case (Suc d)
  then show ?case by (cases d') (auto split: option.splits)
qed

lemma at_depth_chain:
  "at_depth es d k \<Longrightarrow> k < length es \<Longrightarrow>
     \<exists>S. S \<subseteq> {0 ..< length es} \<and> card S = Suc d \<and> (\<forall>a\<in>S. \<exists>e\<le>d. at_depth es e a)"
proof (induction d arbitrary: k)
  case 0
  then have "{k} \<subseteq> {0 ..< length es} \<and> card {k} = Suc 0 \<and> (\<forall>a\<in>{k}. \<exists>e\<le>0. at_depth es e a)"
    by auto
  then show ?case by blast
next
  case (Suc d)
  from Suc.prems obtain a where a: "find_parent_index k es = Some a" and da: "at_depth es d a"
    by (auto split: option.splits)
  have "a < length es" using find_parent_index_Some [OF a] by simp
  from Suc.IH [OF da this] obtain S where S: "S \<subseteq> {0 ..< length es}" "card S = Suc d"
    "\<forall>x\<in>S. \<exists>e\<le>d. at_depth es e x" by blast
  have fin: "finite S" using S(1) finite_subset by blast
  have "k \<notin> S"
  proof
    assume "k \<in> S"
    then obtain e where "e \<le> d" "at_depth es e k" using S(3) by blast
    then show False using at_depth_unique [OF Suc.prems(1), of e] by simp
  qed
  then have "card (insert k S) = Suc (Suc d)"
    using fin S(2) by simp
  moreover have "insert k S \<subseteq> {0 ..< length es}"
    using S(1) Suc.prems(2) by simp
  moreover have "\<forall>x\<in>insert k S. \<exists>e\<le>Suc d. at_depth es e x"
    using S(3) Suc.prems(1) by (metis insert_iff le_Suc_eq order_refl)
  ultimately show ?case by blast
qed

lemma at_depth_bound:
  assumes "at_depth es d k" and "k < length es"
  shows "d < length es"
proof -
  from at_depth_chain [OF assms] obtain S where "S \<subseteq> {0 ..< length es}" "card S = Suc d"
    by blast
  then have "Suc d \<le> card {0 ..< length es}"
    by (metis card_mono finite_atLeastLessThan)
  then show ?thesis by simp
qed

lemma structural_children_parent:
  "c \<in> set (structural_children es tracked p) \<Longrightarrow> find_parent_index c es = Some p"
  by (auto simp: structural_children_def children_indices_def)

lemma structural_children_range:
  "c \<in> set (structural_children es tracked p) \<Longrightarrow> c < length es"
  by (auto simp: structural_children_def children_indices_def)

lemma build_enough_fuel:
  "at_depth es d k \<Longrightarrow> k < length es \<Longrightarrow> length es \<le> d + fuel \<Longrightarrow>
     build_component_structure fuel es tracked asset k \<noteq> None"
proof (induction fuel arbitrary: d k)
  case 0
  then show ?case using at_depth_bound [of es d k] by simp
next
  case (Suc fuel)
  have "\<forall>c\<in>set (structural_children es tracked k).
          build_component_structure fuel es tracked asset c \<noteq> None"
  proof
    fix c assume c: "c \<in> set (structural_children es tracked k)"
    have "at_depth es (Suc d) c"
      using structural_children_parent [OF c] Suc.prems(1) by simp
    then show "build_component_structure fuel es tracked asset c \<noteq> None"
      using Suc.IH [of "Suc d" c] structural_children_range [OF c] Suc.prems(3) by simp
  qed
  then have "those (map (build_component_structure fuel es tracked asset)
                      (structural_children es tracked k)) \<noteq> None"
    by (rule those_map_total)
  then show ?case by (auto simp: Let_def split: prod.splits)
qed
lemma reachable_from_unfold:
  "reachable_from es tracked k =
     insert k (\<Union>c\<in>set (structural_children es tracked k). reachable_from es tracked c)"
proof (intro set_eqI iffI)
  fix i assume "i \<in> reachable_from es tracked k"
  then have "(k, i) \<in> (structural_link es tracked)\<^sup>*"
    by (simp add: reachable_from_def)
  then show "i \<in> insert k (\<Union>c\<in>set (structural_children es tracked k). reachable_from es tracked c)"
    by (cases rule: converse_rtranclE) (auto simp: reachable_from_def structural_link_def)
next
  fix i assume "i \<in> insert k (\<Union>c\<in>set (structural_children es tracked k). reachable_from es tracked c)"
  then show "i \<in> reachable_from es tracked k"
    by (auto simp: reachable_from_def structural_link_def intro: converse_rtrancl_into_rtrancl)
qed

lemma ids_of_node:
  "ids_of (Component (Some i) ty co (Some (Description m (Some children) s l)))
     = insert i (\<Union>ch\<in>set children. ids_of ch)"
  by (auto simp: ids_of_def get_str_def)

lemma build_nodes:
  "build_component_structure fuel es tracked asset k = Some t \<Longrightarrow>
     ids_of t = comp_id ` reachable_from es tracked k"
proof (induction fuel arbitrary: k t)
  case 0
  then show ?case by simp
next
  case (Suc fuel)
  define kids where "kids = structural_children es tracked k"
  from Suc.prems obtain children where
    ch: "those (map (build_component_structure fuel es tracked asset) kids) = Some children"
    and t: "ids_of t = insert (comp_id k) (\<Union>ch\<in>set children. ids_of ch)"
    by (auto simp: Let_def kids_def ids_of_node split: option.splits prod.splits)
  note s = those_map_Some [OF ch]
  have "(\<Union>ch\<in>set children. ids_of ch) = (\<Union>c\<in>set kids. comp_id ` reachable_from es tracked c)"
  proof (intro set_eqI iffI)
    fix x assume "x \<in> (\<Union>ch\<in>set children. ids_of ch)"
    then obtain n where n: "n < length children" "x \<in> ids_of (children ! n)"
      by (auto simp: in_set_conv_nth)
    then have "build_component_structure fuel es tracked asset (kids ! n) = Some (children ! n)"
      using s by simp
    then have "ids_of (children ! n) = comp_id ` reachable_from es tracked (kids ! n)"
      by (rule Suc.IH)
    then show "x \<in> (\<Union>c\<in>set kids. comp_id ` reachable_from es tracked c)"
      using n s by (metis UN_I nth_mem)
  next
    fix x assume "x \<in> (\<Union>c\<in>set kids. comp_id ` reachable_from es tracked c)"
    then obtain n where n: "n < length kids" "x \<in> comp_id ` reachable_from es tracked (kids ! n)"
      by (auto simp: in_set_conv_nth)
    then have "build_component_structure fuel es tracked asset (kids ! n) = Some (children ! n)"
      using s by simp
    then have "ids_of (children ! n) = comp_id ` reachable_from es tracked (kids ! n)"
      by (rule Suc.IH)
    then show "x \<in> (\<Union>ch\<in>set children. ids_of ch)"
      using n s by (metis UN_I nth_mem)
  qed
  then show ?case
    unfolding t reachable_from_unfold [of es tracked k] kids_def by auto
qed

lemma string_of_nat_nonempty: "string_of_nat n \<noteq> []"
  by (subst string_of_nat.simps) simp

lemma digit_char_inj: "a < 10 \<Longrightarrow> b < 10 \<Longrightarrow> char_of (48 + a :: nat) = char_of (48 + b) \<Longrightarrow> a = b"
proof -
  assume a: "a < 10" and b: "b < 10" and e: "char_of (48 + a :: nat) = char_of (48 + b)"
  have "of_char (char_of (48 + a :: nat)) = (48 + a :: nat)"
    using a by (simp add: of_char_of)
  moreover have "of_char (char_of (48 + b :: nat)) = (48 + b :: nat)"
    using b by (simp add: of_char_of)
  ultimately show "a = b" using e by simp
qed

lemma string_of_nat_inj: "string_of_nat a = string_of_nat b \<Longrightarrow> a = b"
proof (induction a arbitrary: b rule: string_of_nat.induct)
  case (1 n)
  show ?case
  proof (cases "n < 10")
    case True
    then have sn: "string_of_nat n = [char_of (48 + n)]"
      by (subst string_of_nat.simps) simp
    show ?thesis
    proof (cases "b < 10")
      case bl: True
      then have "string_of_nat b = [char_of (48 + b)]"
        by (subst string_of_nat.simps) simp
      then show ?thesis using sn "1.prems" True bl digit_char_inj by simp
    next
      case False
      then have "string_of_nat b = string_of_nat (b div 10) @ [char_of (48 + b mod 10)]"
        by (subst string_of_nat.simps) simp
      then show ?thesis
        using sn "1.prems" string_of_nat_nonempty [of "b div 10"] by simp
    qed
  next
    case False
    then have sn: "string_of_nat n = string_of_nat (n div 10) @ [char_of (48 + n mod 10)]"
      by (subst string_of_nat.simps) simp
    show ?thesis
    proof (cases "b < 10")
      case True
      then have "string_of_nat b = [char_of (48 + b)]"
        by (subst string_of_nat.simps) simp
      then show ?thesis
        using sn "1.prems" string_of_nat_nonempty [of "n div 10"] by simp
    next
      case bl: False
      then have sb: "string_of_nat b = string_of_nat (b div 10) @ [char_of (48 + b mod 10)]"
        by (subst string_of_nat.simps) simp
      from sn sb "1.prems" have
        e1: "string_of_nat (n div 10) = string_of_nat (b div 10)"
        and e2: "char_of (48 + n mod 10) = (char_of (48 + b mod 10) :: char)"
        by simp_all
      have "n div 10 = b div 10" using "1.IH" [OF False e1] .
      moreover have "n mod 10 = b mod 10"
        using digit_char_inj [OF _ _ e2] by simp
      ultimately show ?thesis by (metis div_mult_mod_eq)
    qed
  qed
qed

lemma comp_id_inj: "comp_id a = comp_id b \<Longrightarrow> a = b"
  using string_of_nat_inj [of "a + 1" "b + 1"] by (simp add: comp_id_def)
lemma filter_upt_single:
  assumes "j < n" and "P j" and "\<forall>k<n. P k \<longrightarrow> k = j"
  shows "filter P [0 ..< n] = [j]"
proof (rule sorted_distinct_set_unique)
  show "sorted (filter P [0 ..< n])" by (simp add: sorted_wrt_filter)
  show "distinct (filter P [0 ..< n])" by simp
  show "sorted [j]" by simp
  show "distinct [j]" by simp
  have "set (filter P [0 ..< n]) = {k. k < n \<and> P k}" by auto
  also have "\<dots> = {j}" using assms by blast
  finally show "set (filter P [0 ..< n]) = set [j]" by simp
qed

lemma node_ids_set: "set (node_ids out) = (\<Union>x\<in>set out. ids_of (snd x))"
  by (auto simp: node_ids_def ids_of_def)

lemma convert_result:
  "\<exists>out. convert_json_structure es tracked asset = Some out
       \<and> map fst out = map comp_id (root_indices es)
       \<and> set (node_ids out) = comp_id ` (\<Union>r\<in>set (root_indices es). reachable_from es tracked r)"
proof -
  define f where "f = (\<lambda>idx. map_option (\<lambda>t. (comp_id idx, t))
                         (build_component_structure (length es) es tracked asset idx))"
  have "\<forall>r\<in>set (root_indices es). f r \<noteq> None"
  proof
    fix r assume "r \<in> set (root_indices es)"
    then have "at_depth es 0 r" "r < length es"
      by (auto simp: root_indices_def)
    then have "build_component_structure (length es) es tracked asset r \<noteq> None"
      using build_enough_fuel [of es 0 r "length es"] by simp
    then show "f r \<noteq> None" by (simp add: f_def)
  qed
  then have "those (map f (root_indices es)) \<noteq> None"
    by (rule those_map_total)
  then obtain out where out: "those (map f (root_indices es)) = Some out"
    by auto
  note s = those_map_Some [OF out]
  have nth: "fst (out ! m) = comp_id (root_indices es ! m)
        \<and> build_component_structure (length es) es tracked asset (root_indices es ! m)
            = Some (snd (out ! m))"
    if "m < length (root_indices es)" for m
  proof -
    have "f (root_indices es ! m) = Some (out ! m)" using s that by simp
    then show ?thesis by (cases "out ! m") (auto simp: f_def)
  qed
  have keys: "map fst out = map comp_id (root_indices es)"
    using s nth by (intro nth_equalityI) auto
  have ids: "ids_of (snd (out ! m)) = comp_id ` reachable_from es tracked (root_indices es ! m)"
    if "m < length (root_indices es)" for m
    using nth [OF that] build_nodes by blast
  have "(\<Union>x\<in>set out. ids_of (snd x))
      = comp_id ` (\<Union>r\<in>set (root_indices es). reachable_from es tracked r)"
  proof (intro set_eqI iffI)
    fix x assume "x \<in> (\<Union>x\<in>set out. ids_of (snd x))"
    then obtain m where m: "m < length out" "x \<in> ids_of (snd (out ! m))"
      by (auto simp: in_set_conv_nth)
    then have "x \<in> comp_id ` reachable_from es tracked (root_indices es ! m)"
      using ids s by simp
    then show "x \<in> comp_id ` (\<Union>r\<in>set (root_indices es). reachable_from es tracked r)"
      using m s by (metis (no_types, lifting) UN_I image_iff nth_mem)
  next
    fix x assume "x \<in> comp_id ` (\<Union>r\<in>set (root_indices es). reachable_from es tracked r)"
    then obtain m where m: "m < length (root_indices es)"
      "x \<in> comp_id ` reachable_from es tracked (root_indices es ! m)"
      by (auto simp: in_set_conv_nth)
    then have "x \<in> ids_of (snd (out ! m))"
      using ids by simp
    then show "x \<in> (\<Union>x\<in>set out. ids_of (snd x))"
      using m s by (metis UN_I nth_mem)
  qed
  then show ?thesis
    using out keys by (simp add: convert_json_structure_def f_def node_ids_set)
qed

lemma mutual_parents:
  assumes "i < length es" and "j < length es" and "i \<noteq> j"
    and "is_contained_within (e_bbox (es ! i)) (e_bbox (es ! j))"
    and "\<forall>k<length es. k \<noteq> i \<and> k \<noteq> j \<longrightarrow>
           \<not> is_contained_within (e_bbox (es ! i)) (e_bbox (es ! k))"
  shows "find_parent_index i es = Some j"
proof -
  have "potential_parents i es = [j]"
    unfolding potential_parents_def
    using assms by (intro filter_upt_single) auto
  then show ?thesis by (rule find_parent_index_single)
qed

lemma cycle_unreachable:
  assumes ij: "find_parent_index i es = Some j" and ji: "find_parent_index j es = Some i"
    and r: "find_parent_index r es = None"
  shows "i \<notin> reachable_from es tracked r \<and> j \<notin> reachable_from es tracked r"
proof -
  have "x \<noteq> i \<and> x \<noteq> j" if "(r, x) \<in> (structural_link es tracked)\<^sup>*" for x
    using that
  proof (induction rule: rtrancl_induct)
    case base
    then show ?case using ij ji r by auto
  next
    case (step y z)
    then have "find_parent_index z es = Some y"
      by (simp add: structural_link_def structural_children_parent)
    then show ?case using step.IH ij ji by auto
  qed
  then show ?thesis by (auto simp: reachable_from_def)
qed
text \<open>
  Claim C9, as amended. \<open>convert_json_structure\<close> returns; the keys of the result are the
  ids of the parentless components, in order; and the nodes of the returned forest are
  exactly the components reachable from the parentless ones along the links the builder
  follows, that is the children that are not registered as media of their parent. In
  particular, when two components contain each other within the margin and no third
  component contains either of them, each is the other's parent, neither is a root, and
  neither is a node of the returned hierarchy.
\<close>

theorem hierarchy_nodes:
  "(\<exists>out. convert_json_structure es tracked asset = Some out
       \<and> map fst out = map comp_id (root_indices es)
       \<and> set (node_ids out)
           = comp_id ` (\<Union>r\<in>set (root_indices es). reachable_from es tracked r))
   \<and> (\<forall>i j. i < length es \<and> j < length es \<and> i \<noteq> j
         \<and> is_contained_within (e_bbox (es ! i)) (e_bbox (es ! j))
         \<and> is_contained_within (e_bbox (es ! j)) (e_bbox (es ! i))
         \<and> (\<forall>k<length es. k \<noteq> i \<and> k \<noteq> j \<longrightarrow>
               \<not> is_contained_within (e_bbox (es ! i)) (e_bbox (es ! k))
               \<and> \<not> is_contained_within (e_bbox (es ! j)) (e_bbox (es ! k)))
       \<longrightarrow> find_parent_index i es = Some j \<and> find_parent_index j es = Some i
           \<and> i \<notin> set (root_indices es) \<and> j \<notin> set (root_indices es)
           \<and> (\<forall>out. convert_json_structure es tracked asset = Some out \<longrightarrow>
                 comp_id i \<notin> set (node_ids out) \<and> comp_id j \<notin> set (node_ids out)))"
proof (intro conjI allI impI)
  show "\<exists>out. convert_json_structure es tracked asset = Some out
       \<and> map fst out = map comp_id (root_indices es)
       \<and> set (node_ids out)
           = comp_id ` (\<Union>r\<in>set (root_indices es). reachable_from es tracked r)"
    by (rule convert_result)
next
  fix i j
  assume a: "i < length es \<and> j < length es \<and> i \<noteq> j
         \<and> is_contained_within (e_bbox (es ! i)) (e_bbox (es ! j))
         \<and> is_contained_within (e_bbox (es ! j)) (e_bbox (es ! i))
         \<and> (\<forall>k<length es. k \<noteq> i \<and> k \<noteq> j \<longrightarrow>
               \<not> is_contained_within (e_bbox (es ! i)) (e_bbox (es ! k))
               \<and> \<not> is_contained_within (e_bbox (es ! j)) (e_bbox (es ! k)))"
  have ij: "find_parent_index i es = Some j"
    using a by (intro mutual_parents) auto
  have ji: "find_parent_index j es = Some i"
    using a by (intro mutual_parents) auto
  show "find_parent_index i es = Some j" by (rule ij)
  show "find_parent_index j es = Some i" by (rule ji)
  show "i \<notin> set (root_indices es)" using ij by (simp add: root_indices_def)
  show "j \<notin> set (root_indices es)" using ji by (simp add: root_indices_def)
  fix out
  assume out: "convert_json_structure es tracked asset = Some out"
  have nodes: "set (node_ids out)
           = comp_id ` (\<Union>r\<in>set (root_indices es). reachable_from es tracked r)"
    using convert_result [of es tracked asset] out by auto
  have un: "i \<notin> (\<Union>r\<in>set (root_indices es). reachable_from es tracked r)
          \<and> j \<notin> (\<Union>r\<in>set (root_indices es). reachable_from es tracked r)"
    using cycle_unreachable [OF ij ji] by (auto simp: root_indices_def)
  show "comp_id i \<notin> set (node_ids out)"
    unfolding nodes using un comp_id_inj by blast
  show "comp_id j \<notin> set (node_ids out)"
    unfolding nodes using un comp_id_inj by blast
qed

text \<open>
  Claim C9 as stated fails: for a \<open>div\<close> that contains an image that contains a button, the
  button is reachable from the parentless \<open>div\<close> by children links, and the returned
  forest has the single node \<open>comp_1\<close>: the image is only a media entry of the \<open>div\<close>, and
  the button is nowhere.
\<close>

theorem hierarchy_media_counterexample:
  "root_indices media_under = [0]
   \<and> children_indices media_under 0 = [1]
   \<and> children_indices media_under 1 = [2]
   \<and> (case convert_json_structure media_under all_tracked index_asset of
         None \<Rightarrow> False
       | Some out \<Rightarrow> node_ids out = [''comp_1''])"
  by code_simp

theorem hierarchy_nodes_witness:
  "find_parent_index 0 twins = Some 1 \<and> find_parent_index 1 twins = Some 0
   \<and> (case convert_json_structure twins all_tracked index_asset of
         None \<Rightarrow> False
       | Some out \<Rightarrow> map fst out = [''comp_3'']
           \<and> comp_id 0 \<notin> set (node_ids out) \<and> comp_id 1 \<notin> set (node_ids out))"
proof -
  note t = hierarchy_nodes [of twins all_tracked index_asset]
  from t obtain out where out: "convert_json_structure twins all_tracked index_asset = Some out"
    and keys: "map fst out = map comp_id (root_indices twins)"
    by blast
  have r: "map comp_id (root_indices twins) = [''comp_3'']"
    by code_simp
  have h: "0 < length twins \<and> 1 < length twins \<and> (0::nat) \<noteq> 1
         \<and> is_contained_within (e_bbox (twins ! 0)) (e_bbox (twins ! 1))
         \<and> is_contained_within (e_bbox (twins ! 1)) (e_bbox (twins ! 0))
         \<and> (\<forall>k<length twins. k \<noteq> 0 \<and> k \<noteq> 1 \<longrightarrow>
               \<not> is_contained_within (e_bbox (twins ! 0)) (e_bbox (twins ! k))
               \<and> \<not> is_contained_within (e_bbox (twins ! 1)) (e_bbox (twins ! k)))"
    by (auto simp: twins_def is_contained_within_def less_Suc_eq numeral_3_eq_3)
  show ?thesis
    using t [THEN conjunct2, rule_format, OF h] out keys r by simp
qed

end
